theory Spec2Isabelle
  imports Complex_Main
begin

section \<open>Data model\<close>

text \<open>
  The program is object-oriented TypeScript: places, ants and bees are heap objects that
  refer to each other.  The model keeps an explicit store for each class.  A reference is
  an identifier; a store is a total function from identifiers to objects, so a reference
  always denotes an object, as in the source.  A field that may hold \<^verbatim>\<open>undefined\<close> is an
  \<open>option\<close>.

  Places are allocated at fixed program points only: the queen's place and the tunnel
  sections in the constructor of \<^verbatim>\<open>AntColony\<close>, the hive in the constructor of \<^verbatim>\<open>Hive\<close>, and a
  stomach in the constructor of every \<^verbatim>\<open>EaterAnt\<close>.  A place reference names its allocation.
  Console output and the \<^verbatim>\<open>name\<close> fields that only feed it are not modelled.
\<close>

datatype place_ref = QueenPlace | HivePlace | TunnelPlace nat nat | StomachPlace nat

record place_obj =
  p_ant :: "nat option"
  p_guard :: "nat option"
  p_bees :: "nat list"
  p_water :: bool
  p_exit :: "place_ref option"
  p_entrance :: "place_ref option"

datatype ant_kind = Grower | Thrower | Eater | Scuba | Guard

record ant_obj =
  a_kind :: ant_kind
  a_armor :: int
  a_foodCost :: int
  a_place :: "place_ref option"
  a_boost :: "string option"
  a_turnsEating :: int

record bee_obj =
  b_armor :: int
  b_damage :: int
  b_place :: "place_ref option"
  b_status :: "string option"

text \<open>
  One record holds the three stores, the fields of the colony (\<open>food\<close>, \<open>places\<close>,
  \<open>beeEntrances\<close>, \<open>boosts\<close>), of the hive (\<open>waves\<close>, \<open>beeArmor\<close>, \<open>beeDamage\<close>) and of the
  game (\<open>turn\<close>).  \<open>rolls\<close> lists the values that the calls of \<^verbatim>\<open>Math.random()\<close> return, in call
  order, and \<open>roll_ix\<close> counts the calls made so far.  The objects \<^verbatim>\<open>boosts\<close> and \<^verbatim>\<open>waves\<close> are
  used as dictionaries; the maps hold their own properties.  \<^verbatim>\<open>waves\<close> is read with numbers
  only.  \<^verbatim>\<open>boosts\<close> is read with any string, so a read also finds what the object inherits
  from \<^verbatim>\<open>Object.prototype\<close> (\<open>boosts_get\<close> below).  An own property of \<^verbatim>\<open>boosts\<close> is a number,
  \<open>Count\<close>, or a value that is not a number, \<open>NotNumber\<close>: the string that \<^verbatim>\<open>+ 1\<close> makes of an
  inherited function.
\<close>

datatype boost_value = Count int | NotNumber

record game =
  heap_places :: "place_ref \<Rightarrow> place_obj"
  heap_ants :: "nat \<Rightarrow> ant_obj"
  heap_bees :: "nat \<Rightarrow> bee_obj"
  next_ant :: nat
  next_bee :: nat
  food :: int
  places :: "place_ref list list"
  beeEntrances :: "place_ref list"
  boosts :: "string \<rightharpoonup> boost_value"
  waves :: "int \<rightharpoonup> nat list"
  beeArmor :: int
  beeDamage :: int
  turn :: int
  rolls :: "nat \<Rightarrow> real"
  roll_ix :: nat

datatype error = TypeError | OutOfFuel

datatype insect_ref = AntRef nat | BeeRef nat

definition upd_place :: "place_ref \<Rightarrow> (place_obj \<Rightarrow> place_obj) \<Rightarrow> game \<Rightarrow> game" where
  "upd_place p f s = s\<lparr>heap_places := (heap_places s)(p := f (heap_places s p))\<rparr>"

definition upd_ant :: "nat \<Rightarrow> (ant_obj \<Rightarrow> ant_obj) \<Rightarrow> game \<Rightarrow> game" where
  "upd_ant a f s = s\<lparr>heap_ants := (heap_ants s)(a := f (heap_ants s a))\<rparr>"

definition upd_bee :: "nat \<Rightarrow> (bee_obj \<Rightarrow> bee_obj) \<Rightarrow> game \<Rightarrow> game" where
  "upd_bee b f s = s\<lparr>heap_bees := (heap_bees s)(b := f (heap_bees s b))\<rparr>"

section \<open>Place\<close>

definition getAnt :: "game \<Rightarrow> place_ref \<Rightarrow> nat option" where
  "getAnt s p =
     (case p_guard (heap_places s p) of
        Some g \<Rightarrow> Some g
      | None \<Rightarrow> p_ant (heap_places s p))"

definition getGuardedAnt :: "game \<Rightarrow> place_ref \<Rightarrow> nat option" where
  "getGuardedAnt s p = p_ant (heap_places s p)"

definition getBees :: "game \<Rightarrow> place_ref \<Rightarrow> nat list" where
  "getBees s p = p_bees (heap_places s p)"

text \<open>
  The loop of \<^verbatim>\<open>getClosestBee\<close>: \<open>p\<close> is the loop variable of the same name (\<open>None\<close> is
  \<^verbatim>\<open>undefined\<close>), \<open>dst\<close> the counter \<^verbatim>\<open>dist\<close>.
\<close>

function getClosestBee_loop ::
  "game \<Rightarrow> place_ref option \<Rightarrow> int \<Rightarrow> int \<Rightarrow> int \<Rightarrow> nat option" where
  "getClosestBee_loop s p dst maxDistance minDistance =
     (case p of
        None \<Rightarrow> None
      | Some q \<Rightarrow>
          if dst \<le> maxDistance then
            (if dst \<ge> minDistance \<and> length (p_bees (heap_places s q)) > 0
             then Some (hd (p_bees (heap_places s q)))
             else getClosestBee_loop s (p_entrance (heap_places s q)) (dst + 1)
                    maxDistance minDistance)
          else None)"
  by pat_completeness auto
termination
  by (relation "measure (\<lambda>(s, p, dst, maxDistance, minDistance). nat (maxDistance + 1 - dst))")
    auto

declare getClosestBee_loop.simps [simp del]

definition getClosestBee :: "game \<Rightarrow> place_ref \<Rightarrow> int \<Rightarrow> int \<Rightarrow> nat option" where
  "getClosestBee s p maxDistance minDistance =
     getClosestBee_loop s (Some p) 0 maxDistance minDistance"

definition addAnt :: "game \<Rightarrow> place_ref \<Rightarrow> nat \<Rightarrow> bool \<times> game" where
  "addAnt s p ant =
     (if a_kind (heap_ants s ant) = Guard then
        (if p_guard (heap_places s p) = None then
           (True, upd_ant ant (\<lambda>a. a\<lparr>a_place := Some p\<rparr>)
                    (upd_place p (\<lambda>pl. pl\<lparr>p_guard := Some ant\<rparr>) s))
         else (False, s))
      else if p_ant (heap_places s p) = None then
        (True, upd_ant ant (\<lambda>a. a\<lparr>a_place := Some p\<rparr>)
                 (upd_place p (\<lambda>pl. pl\<lparr>p_ant := Some ant\<rparr>) s))
      else (False, s))"

definition removeAnt :: "game \<Rightarrow> place_ref \<Rightarrow> nat option \<times> game" where
  "removeAnt s p =
     (if p_guard (heap_places s p) \<noteq> None then
        (p_guard (heap_places s p), upd_place p (\<lambda>pl. pl\<lparr>p_guard := None\<rparr>) s)
      else
        (p_ant (heap_places s p), upd_place p (\<lambda>pl. pl\<lparr>p_ant := None\<rparr>) s))"

definition addBee :: "game \<Rightarrow> place_ref \<Rightarrow> nat \<Rightarrow> game" where
  "addBee s p bee =
     upd_bee bee (\<lambda>b. b\<lparr>b_place := Some p\<rparr>)
       (upd_place p (\<lambda>pl. pl\<lparr>p_bees := p_bees pl @ [bee]\<rparr>) s)"

text \<open>
  \<^verbatim>\<open>indexOf\<close> finds the first occurrence of the reference and \<^verbatim>\<open>splice(index,1)\<close> removes
  that one element.
\<close>

definition removeBee :: "game \<Rightarrow> place_ref \<Rightarrow> nat \<Rightarrow> game" where
  "removeBee s p bee =
     (if bee \<in> set (p_bees (heap_places s p)) then
        upd_bee bee (\<lambda>b. b\<lparr>b_place := None\<rparr>)
          (upd_place p (\<lambda>pl. pl\<lparr>p_bees := remove1 bee (p_bees pl)\<rparr>) s)
      else s)"

text \<open>\<^verbatim>\<open>this.exit.addBee\<close> throws a TypeError when the place has no exit.\<close>

definition exitBee :: "game \<Rightarrow> place_ref \<Rightarrow> nat \<Rightarrow> error + game" where
  "exitBee s p bee =
     (let s1 = removeBee s p bee in
      case p_exit (heap_places s1 p) of
        None \<Rightarrow> Inl TypeError
      | Some e \<Rightarrow> Inr (addBee s1 e bee))"

definition removeInsect :: "game \<Rightarrow> place_ref \<Rightarrow> insect_ref \<Rightarrow> game" where
  "removeInsect s p insect =
     (case insect of
        AntRef a \<Rightarrow> snd (removeAnt s p)
      | BeeRef b \<Rightarrow> removeBee s p b)"

definition is_scuba :: "game \<Rightarrow> nat option \<Rightarrow> bool" where
  "is_scuba s x = (case x of None \<Rightarrow> False | Some a \<Rightarrow> a_kind (heap_ants s a) = Scuba)"

definition place_act :: "game \<Rightarrow> place_ref \<Rightarrow> game" where
  "place_act s p =
     (if p_water (heap_places s p) then
        (let s1 = (if p_guard (heap_places s p) \<noteq> None then snd (removeAnt s p) else s) in
         if \<not> is_scuba s1 (p_ant (heap_places s1 p)) then snd (removeAnt s1 p) else s1)
      else s)"

section \<open>Insects\<close>

definition getArmor :: "game \<Rightarrow> insect_ref \<Rightarrow> int" where
  "getArmor s insect =
     (case insect of
        AntRef a \<Rightarrow> a_armor (heap_ants s a)
      | BeeRef b \<Rightarrow> b_armor (heap_bees s b))"

definition getPlace :: "game \<Rightarrow> insect_ref \<Rightarrow> place_ref option" where
  "getPlace s insect =
     (case insect of
        AntRef a \<Rightarrow> a_place (heap_ants s a)
      | BeeRef b \<Rightarrow> b_place (heap_bees s b))"

definition subArmor :: "game \<Rightarrow> insect_ref \<Rightarrow> int \<Rightarrow> game" where
  "subArmor s insect amount =
     (case insect of
        AntRef a \<Rightarrow> upd_ant a (\<lambda>x. x\<lparr>a_armor := a_armor x - amount\<rparr>) s
      | BeeRef b \<Rightarrow> upd_bee b (\<lambda>x. x\<lparr>b_armor := b_armor x - amount\<rparr>) s)"

text \<open>
  \<^verbatim>\<open>Insect.reduceArmor\<close>.  \<^verbatim>\<open>this.place.removeInsect(this)\<close> throws a TypeError when the insect
  has no place.  An exception aborts the operation; the model then returns the error and
  no state.
\<close>

definition reduceArmor :: "game \<Rightarrow> insect_ref \<Rightarrow> int \<Rightarrow> error + (bool \<times> game)" where
  "reduceArmor s insect amount =
     (let s1 = subArmor s insect amount in
      if getArmor s1 insect \<le> 0 then
        (case getPlace s1 insect of
           None \<Rightarrow> Inl TypeError
         | Some p \<Rightarrow> Inr (True, removeInsect s1 p insect))
      else Inr (False, s1))"

text \<open>
  The statements that \<^verbatim>\<open>EaterAnt.reduceArmor\<close> runs in both of its branches to cough up the
  swallowed bee.  \<^verbatim>\<open>stomach.getBees()[0]\<close> is \<^verbatim>\<open>undefined\<close> on an empty stomach; then
  \<^verbatim>\<open>removeBee\<close> finds nothing and \<^verbatim>\<open>addBee\<close> throws on \<^verbatim>\<open>bee.setPlace\<close>.
\<close>

definition coughUp :: "game \<Rightarrow> nat \<Rightarrow> error + game" where
  "coughUp s ant =
     (case p_bees (heap_places s (StomachPlace ant)) of
        [] \<Rightarrow> Inl TypeError
      | eaten # _ \<Rightarrow>
          (let s1 = removeBee s (StomachPlace ant) eaten in
           case a_place (heap_ants s1 ant) of
             None \<Rightarrow> Inl TypeError
           | Some p \<Rightarrow> Inr (addBee s1 p eaten)))"

definition eater_reduceArmor :: "game \<Rightarrow> nat \<Rightarrow> int \<Rightarrow> error + (bool \<times> game)" where
  "eater_reduceArmor s ant amount =
     (let s1 = subArmor s (AntRef ant) amount in
      if a_armor (heap_ants s1 ant) > 0 then
        (if a_turnsEating (heap_ants s1 ant) = 1 then
           (case coughUp s1 ant of
              Inl e \<Rightarrow> Inl e
            | Inr s2 \<Rightarrow> Inr (False, upd_ant ant (\<lambda>x. x\<lparr>a_turnsEating := 3\<rparr>) s2))
         else Inr (False, s1))
      else
        (if a_turnsEating (heap_ants s1 ant) > 0 \<and> a_turnsEating (heap_ants s1 ant) \<le> 2 then
           (case coughUp s1 ant of
              Inl e \<Rightarrow> Inl e
            | Inr s2 \<Rightarrow> reduceArmor s2 (AntRef ant) amount)
         else reduceArmor s1 (AntRef ant) amount))"

text \<open>Dynamic dispatch of \<^verbatim>\<open>ant.reduceArmor\<close>: only \<^verbatim>\<open>EaterAnt\<close> overrides it.\<close>

definition ant_reduceArmor :: "game \<Rightarrow> nat \<Rightarrow> int \<Rightarrow> error + (bool \<times> game)" where
  "ant_reduceArmor s ant amount =
     (if a_kind (heap_ants s ant) = Eater then eater_reduceArmor s ant amount
      else reduceArmor s (AntRef ant) amount)"

definition setStatus :: "game \<Rightarrow> nat \<Rightarrow> string option \<Rightarrow> game" where
  "setStatus s bee status = upd_bee bee (\<lambda>b. b\<lparr>b_status := status\<rparr>) s"

text \<open>\<^verbatim>\<open>Bee.act\<close>; \<^verbatim>\<open>isBlocked\<close> reads \<^verbatim>\<open>this.place.getAnt()\<close>.\<close>

definition bee_act :: "game \<Rightarrow> nat \<Rightarrow> error + game" where
  "bee_act s bee =
     (case b_place (heap_bees s bee) of
        None \<Rightarrow> Inl TypeError
      | Some p \<Rightarrow>
          (case
             (case getAnt s p of
                Some ant \<Rightarrow>
                  if b_status (heap_bees s bee) \<noteq> Some ''cold'' then
                    (case ant_reduceArmor s ant (b_damage (heap_bees s bee)) of
                       Inl e \<Rightarrow> Inl e
                     | Inr (died, s1) \<Rightarrow> Inr s1)
                  else Inr s
              | None \<Rightarrow>
                  if b_armor (heap_bees s bee) > 0 then
                    (if b_status (heap_bees s bee) \<noteq> Some ''stuck'' then exitBee s p bee
                     else Inr s)
                  else Inr s)
           of
             Inl e \<Rightarrow> Inl e
           | Inr s2 \<Rightarrow> Inr (setStatus s2 bee None)))"

section \<open>Ants\<close>

definition increaseFood :: "game \<Rightarrow> int \<Rightarrow> game" where
  "increaseFood s amount = s\<lparr>food := food s + amount\<rparr>"

text \<open>
  The property names of \<^verbatim>\<open>Object.prototype\<close>, which every object inherits.  All of them
  name a function, but \<^verbatim>\<open>__proto__\<close>, which names the prototype object itself.
\<close>

definition object_prototype_names :: "string list" where
  "object_prototype_names =
     [''constructor'', ''hasOwnProperty'', ''isPrototypeOf'', ''propertyIsEnumerable'',
      ''toLocaleString'', ''toString'', ''valueOf'', ''__proto__'', ''__defineGetter__'',
      ''__defineSetter__'', ''__lookupGetter__'', ''__lookupSetter__'']"

text \<open>
  \<^verbatim>\<open>this.boosts[boost]\<close>: the own property when there is one, else the inherited one, else
  \<^verbatim>\<open>undefined\<close> (\<open>None\<close>).  An inherited value is a function or an object, not a number.
\<close>

definition boosts_get :: "game \<Rightarrow> string \<Rightarrow> boost_value option" where
  "boosts_get s boost =
     (case boosts s boost of
        Some v \<Rightarrow> Some v
      | None \<Rightarrow> if boost \<in> set object_prototype_names then Some NotNumber else None)"

text \<open>
  \<^verbatim>\<open>addBoost\<close>.  \<^verbatim>\<open>+ 1\<close> on a value that is not a number gives a string.  An assignment to
  \<^verbatim>\<open>__proto__\<close> runs the inherited setter, which ignores a string.
\<close>

definition addBoost :: "game \<Rightarrow> string \<Rightarrow> game" where
  "addBoost s boost =
     (let s1 = (if boosts_get s boost = None then s\<lparr>boosts := (boosts s)(boost \<mapsto> Count 0)\<rparr>
                else s);
          v = (case boosts_get s1 boost of
                 Some (Count n) \<Rightarrow> Count (n + 1)
               | Some NotNumber \<Rightarrow> NotNumber
               | None \<Rightarrow> NotNumber)
      in if boost = ''__proto__'' then s1 else s1\<lparr>boosts := (boosts s1)(boost \<mapsto> v)\<rparr>)"

definition setBoost :: "game \<Rightarrow> nat \<Rightarrow> string \<Rightarrow> game" where
  "setBoost s ant boost = upd_ant ant (\<lambda>a. a\<lparr>a_boost := Some boost\<rparr>) s"

definition random :: "game \<Rightarrow> real \<times> game" where
  "random s = (rolls s (roll_ix s), s\<lparr>roll_ix := roll_ix s + 1\<rparr>)"

definition grower_act :: "game \<Rightarrow> nat \<Rightarrow> error + game" where
  "grower_act s ant =
     (let (roll, s1) = random s in
      if roll < 0.6 then Inr (increaseFood s1 1)
      else if roll < 0.7 then Inr (addBoost s1 ''FlyingLeaf'')
      else if roll < 0.8 then Inr (addBoost s1 ''StickyLeaf'')
      else if roll < 0.9 then Inr (addBoost s1 ''IcyLeaf'')
      else if roll < 0.95 then Inr (addBoost s1 ''BugSpray'')
      else Inr s1)"

text \<open>
  The \<^verbatim>\<open>while(target)\<close> loop of the BugSpray branch.  It need not end (a bee listed at a
  place that is not the bee's own place is never removed from the list), so the model
  counts iterations down from \<open>fuel\<close> and returns \<open>OutOfFuel\<close> when they are used up.
\<close>

fun spray_loop :: "nat \<Rightarrow> game \<Rightarrow> nat \<Rightarrow> error + game" where
  "spray_loop fuel s ant =
     (case a_place (heap_ants s ant) of
        None \<Rightarrow> Inl TypeError
      | Some p \<Rightarrow>
          (case getClosestBee s p 0 0 of
             None \<Rightarrow> Inr s
           | Some target \<Rightarrow>
               (case fuel of
                  0 \<Rightarrow> Inl OutOfFuel
                | Suc k \<Rightarrow>
                    (case reduceArmor s (BeeRef target) 10 of
                       Inl e \<Rightarrow> Inl e
                     | Inr (died, s1) \<Rightarrow> spray_loop k s1 ant))))"

declare spray_loop.simps [simp del]

text \<open>
  \<^verbatim>\<open>ThrowerAnt.act\<close>.  The body of \<^verbatim>\<open>ScubaAnt.act\<close> is the same text, and both classes set
  \<^verbatim>\<open>damage\<close> to 1 and inherit \<^verbatim>\<open>Insect.reduceArmor\<close>.
\<close>

definition thrower_act :: "nat \<Rightarrow> game \<Rightarrow> nat \<Rightarrow> error + game" where
  "thrower_act fuel s ant =
     (if a_boost (heap_ants s ant) \<noteq> Some ''BugSpray'' then
        (case a_place (heap_ants s ant) of
           None \<Rightarrow> Inl TypeError
         | Some p \<Rightarrow>
             (case (if a_boost (heap_ants s ant) = Some ''FlyingLeaf''
                    then getClosestBee s p 5 0 else getClosestBee s p 3 0) of
                None \<Rightarrow> Inr s
              | Some target \<Rightarrow>
                  (case reduceArmor s (BeeRef target) 1 of
                     Inl e \<Rightarrow> Inl e
                   | Inr (died, s1) \<Rightarrow>
                       (let s2 = (if a_boost (heap_ants s1 ant) = Some ''StickyLeaf''
                                  then setStatus s1 target (Some ''stuck'') else s1);
                            s3 = (if a_boost (heap_ants s2 ant) = Some ''IcyLeaf''
                                  then setStatus s2 target (Some ''cold'') else s2)
                        in Inr (upd_ant ant (\<lambda>a. a\<lparr>a_boost := None\<rparr>) s3)))))
      else
        (case spray_loop fuel s ant of
           Inl e \<Rightarrow> Inl e
         | Inr s1 \<Rightarrow>
             (case reduceArmor s1 (AntRef ant) 10 of
                Inl e \<Rightarrow> Inl e
              | Inr (died, s2) \<Rightarrow> Inr s2)))"

definition scuba_act :: "nat \<Rightarrow> game \<Rightarrow> nat \<Rightarrow> error + game" where
  "scuba_act fuel s ant = thrower_act fuel s ant"

definition isFull :: "game \<Rightarrow> nat \<Rightarrow> bool" where
  "isFull s ant = (length (getBees s (StomachPlace ant)) > 0)"

text \<open>
  \<^verbatim>\<open>EaterAnt.act\<close>.  In the last branch \<^verbatim>\<open>removeBee(undefined)\<close> on an empty stomach finds
  nothing and changes nothing.
\<close>

definition eater_act :: "game \<Rightarrow> nat \<Rightarrow> error + game" where
  "eater_act s ant =
     (if a_turnsEating (heap_ants s ant) = 0 then
        (case a_place (heap_ants s ant) of
           None \<Rightarrow> Inl TypeError
         | Some p \<Rightarrow>
             (case getClosestBee s p 0 0 of
                None \<Rightarrow> Inr s
              | Some target \<Rightarrow>
                  Inr (upd_ant ant (\<lambda>a. a\<lparr>a_turnsEating := 1\<rparr>)
                         (addBee (removeBee s p target) (StomachPlace ant) target))))
      else if a_turnsEating (heap_ants s ant) > 3 then
        Inr (upd_ant ant (\<lambda>a. a\<lparr>a_turnsEating := 0\<rparr>)
               (case getBees s (StomachPlace ant) of
                  [] \<Rightarrow> s
                | b # _ \<Rightarrow> removeBee s (StomachPlace ant) b))
      else Inr (upd_ant ant (\<lambda>a. a\<lparr>a_turnsEating := a_turnsEating a + 1\<rparr>) s))"

definition getGuarded :: "game \<Rightarrow> nat \<Rightarrow> error + nat option" where
  "getGuarded s ant =
     (case a_place (heap_ants s ant) of
        None \<Rightarrow> Inl TypeError
      | Some p \<Rightarrow> Inr (getGuardedAnt s p))"

definition guard_act :: "game \<Rightarrow> nat \<Rightarrow> error + game" where
  "guard_act s ant = Inr s"

text \<open>Dynamic dispatch of \<^verbatim>\<open>ant.act(colony)\<close> on the class of the ant.\<close>

definition ant_act :: "nat \<Rightarrow> game \<Rightarrow> nat \<Rightarrow> error + game" where
  "ant_act fuel s ant =
     (case a_kind (heap_ants s ant) of
        Grower \<Rightarrow> grower_act s ant
      | Thrower \<Rightarrow> thrower_act fuel s ant
      | Eater \<Rightarrow> eater_act s ant
      | Scuba \<Rightarrow> scuba_act fuel s ant
      | Guard \<Rightarrow> guard_act s ant)"

section \<open>Hive\<close>

text \<open>
  \<^verbatim>\<open>new Bee(this.beeArmor, this.beeDamage, this)\<close> allocates the next bee identifier.  The
  loop of \<^verbatim>\<open>addWave\<close> runs \<open>numBees\<close> times; \<open>wave\<close> is its local array.
\<close>

definition new_Bee :: "game \<Rightarrow> int \<Rightarrow> int \<Rightarrow> place_ref option \<Rightarrow> nat \<times> game" where
  "new_Bee s armor damage place =
     (next_bee s,
      s\<lparr>heap_bees := (heap_bees s)(next_bee s :=
           \<lparr>b_armor = armor, b_damage = damage, b_place = place, b_status = None\<rparr>),
        next_bee := next_bee s + 1\<rparr>)"

fun addWave_loop :: "nat \<Rightarrow> game \<Rightarrow> nat list \<Rightarrow> nat list \<times> game" where
  "addWave_loop 0 s wave = (wave, s)"
| "addWave_loop (Suc n) s wave =
     (let (bee, s1) = new_Bee s (beeArmor s) (beeDamage s) (Some HivePlace)
      in addWave_loop n (addBee s1 HivePlace bee) (wave @ [bee]))"

definition addWave :: "game \<Rightarrow> int \<Rightarrow> nat \<Rightarrow> game" where
  "addWave s attackTurn numBees =
     (let (wave, s1) = addWave_loop numBees s []
      in s1\<lparr>waves := (waves s1)(attackTurn \<mapsto> wave)\<rparr>)"

text \<open>
  One iteration of the \<^verbatim>\<open>forEach\<close> in \<^verbatim>\<open>invade\<close>.  \<^verbatim>\<open>entrances[randEntrance]\<close> is \<^verbatim>\<open>undefined\<close> when
  the index is outside the array (an empty array of entrances), and \<^verbatim>\<open>addBee\<close> on it throws.
\<close>

definition invade_body :: "game \<Rightarrow> nat \<Rightarrow> error + game" where
  "invade_body s bee =
     (let s1 = removeBee s HivePlace bee;
          entrances = beeEntrances s1;
          (roll, s2) = random s1;
          randEntrance = \<lfloor>roll * real (length entrances)\<rfloor>
      in if 0 \<le> randEntrance \<and> randEntrance < int (length entrances)
         then Inr (addBee s2 (entrances ! nat randEntrance) bee)
         else Inl TypeError)"

fun invade_loop :: "nat list \<Rightarrow> game \<Rightarrow> error + game" where
  "invade_loop [] s = Inr s"
| "invade_loop (bee # wave) s =
     (case invade_body s bee of
        Inl e \<Rightarrow> Inl e
      | Inr s1 \<Rightarrow> invade_loop wave s1)"

definition invade :: "game \<Rightarrow> int \<Rightarrow> error + (nat list \<times> game)" where
  "invade s currentTurn =
     (case waves s currentTurn of
        Some wave \<Rightarrow>
          (case invade_loop wave s of
             Inl e \<Rightarrow> Inl e
           | Inr s1 \<Rightarrow> Inr (wave, s1))
      | None \<Rightarrow> Inr ([], s))"

section \<open>AntColony\<close>

definition queenHasBees :: "game \<Rightarrow> bool" where
  "queenHasBees s = (length (getBees s QueenPlace) > 0)"

text \<open>
  \<open>place\<close> is \<open>None\<close> when the caller passes a value that is not a \<^verbatim>\<open>Place\<close> (\<^verbatim>\<open>undefined\<close>, as
  \<^verbatim>\<open>AntGame\<close> does for a column outside the row); a method call on it throws a TypeError.
\<close>

definition deployAnt ::
  "game \<Rightarrow> nat \<Rightarrow> place_ref option \<Rightarrow> error + (string option \<times> game)" where
  "deployAnt s ant place =
     (if food s \<ge> a_foodCost (heap_ants s ant) then
        (case place of
           None \<Rightarrow> Inl TypeError
         | Some p \<Rightarrow>
             (let (success, s1) = addAnt s p ant in
              if success then Inr (None, s1\<lparr>food := food s1 - a_foodCost (heap_ants s1 ant)\<rparr>)
              else Inr (Some ''tunnel already occupied'', s1)))
      else Inr (Some ''not enough food'', s))"

definition applyBoost ::
  "game \<Rightarrow> string \<Rightarrow> place_ref option \<Rightarrow> error + (string option \<times> game)" where
  "applyBoost s boost place =
     (if boosts_get s boost = None \<or>
         (case boosts_get s boost of Some (Count n) \<Rightarrow> n < 1 | _ \<Rightarrow> False)
      then Inr (Some ''no such boost'', s)
      else
        (case place of
           None \<Rightarrow> Inl TypeError
         | Some p \<Rightarrow>
             (case getAnt s p of
                None \<Rightarrow> Inr (Some ''no Ant at location'', s)
              | Some ant \<Rightarrow> Inr (None, setBoost s ant boost))))"

text \<open>The board in the order of the two nested loops: tunnel by tunnel, step by step.\<close>

definition getAllAnts :: "game \<Rightarrow> nat list" where
  "getAllAnts s = List.map_filter (getAnt s) (concat (places s))"

definition getAllBees :: "game \<Rightarrow> nat list" where
  "getAllBees s = concat (map (getBees s) (concat (places s)))"

text \<open>
  One iteration of the \<^verbatim>\<open>forEach\<close> in \<^verbatim>\<open>antsAct\<close>.  Beside the state it returns the receivers
  of the calls of \<^verbatim>\<open>act\<close> it made, in call order; the source does not compute this list, it
  records how often the act of a defender is executed.
\<close>

definition antsAct_body :: "nat \<Rightarrow> game \<Rightarrow> nat \<Rightarrow> error + (nat list \<times> game)" where
  "antsAct_body fuel s ant =
     (if a_kind (heap_ants s ant) = Guard then
        (case getGuarded s ant of
           Inl e \<Rightarrow> Inl e
         | Inr None \<Rightarrow>
             (case ant_act fuel s ant of
                Inl e \<Rightarrow> Inl e
              | Inr s2 \<Rightarrow> Inr ([ant], s2))
         | Inr (Some guarded) \<Rightarrow>
             (case ant_act fuel s guarded of
                Inl e \<Rightarrow> Inl e
              | Inr s1 \<Rightarrow>
                  (case ant_act fuel s1 ant of
                     Inl e \<Rightarrow> Inl e
                   | Inr s2 \<Rightarrow> Inr ([guarded, ant], s2))))
      else
        (case ant_act fuel s ant of
           Inl e \<Rightarrow> Inl e
         | Inr s2 \<Rightarrow> Inr ([ant], s2)))"

fun antsAct_loop :: "nat \<Rightarrow> nat list \<Rightarrow> game \<Rightarrow> error + (nat list \<times> game)" where
  "antsAct_loop fuel [] s = Inr ([], s)"
| "antsAct_loop fuel (ant # ants) s =
     (case antsAct_body fuel s ant of
        Inl e \<Rightarrow> Inl e
      | Inr (acted, s1) \<Rightarrow>
          (case antsAct_loop fuel ants s1 of
             Inl e \<Rightarrow> Inl e
           | Inr (acted', s2) \<Rightarrow> Inr (acted @ acted', s2)))"

definition antsAct_calls :: "nat \<Rightarrow> game \<Rightarrow> error + (nat list \<times> game)" where
  "antsAct_calls fuel s = antsAct_loop fuel (getAllAnts s) s"

definition antsAct :: "nat \<Rightarrow> game \<Rightarrow> error + game" where
  "antsAct fuel s =
     (case antsAct_calls fuel s of
        Inl e \<Rightarrow> Inl e
      | Inr (acted, s1) \<Rightarrow> Inr s1)"

fun beesAct_loop :: "nat list \<Rightarrow> game \<Rightarrow> error + game" where
  "beesAct_loop [] s = Inr s"
| "beesAct_loop (bee # bs) s =
     (case bee_act s bee of
        Inl e \<Rightarrow> Inl e
      | Inr s1 \<Rightarrow> beesAct_loop bs s1)"

definition beesAct :: "game \<Rightarrow> error + game" where
  "beesAct s = beesAct_loop (getAllBees s) s"

definition placesAct :: "game \<Rightarrow> game" where
  "placesAct s = fold (\<lambda>p s1. place_act s1 p) (concat (places s)) s"

section \<open>AntGame\<close>

definition takeTurn :: "nat \<Rightarrow> game \<Rightarrow> error + game" where
  "takeTurn fuel s =
     (case antsAct fuel s of
        Inl e \<Rightarrow> Inl e
      | Inr s1 \<Rightarrow>
          (case beesAct s1 of
             Inl e \<Rightarrow> Inl e
           | Inr s2 \<Rightarrow>
               (case invade (placesAct s2) (turn (placesAct s2)) of
                  Inl e \<Rightarrow> Inl e
                | Inr (wave, s3) \<Rightarrow> Inr (s3\<lparr>turn := turn s3 + 1\<rparr>))))"

text \<open>\<open>Some False\<close> is lost, \<open>Some True\<close> is won, \<open>None\<close> is \<^verbatim>\<open>undefined\<close>.\<close>

definition gameIsWon :: "game \<Rightarrow> bool option" where
  "gameIsWon s =
     (if queenHasBees s then Some False
      else if length (getAllBees s) + length (getBees s HivePlace) = 0 then Some True
      else None)"

subsection \<open>Commands addressed by coordinates\<close>

text \<open>
  \<^verbatim>\<open>antType.toLowerCase()\<close> on the ASCII letters; \<open>string\<close> is a list of bytes.
\<close>

definition lower_char :: "char \<Rightarrow> char" where
  "lower_char c =
     (case map_of (zip ''ABCDEFGHIJKLMNOPQRSTUVWXYZ'' ''abcdefghijklmnopqrstuvwxyz'') c of
        Some l \<Rightarrow> l
      | None \<Rightarrow> c)"

definition toLowerCase :: "string \<Rightarrow> string" where
  "toLowerCase str = map lower_char str"

text \<open>\<^verbatim>\<open>placeCoordinates.split(',')\<close>: the result has at least one element.\<close>

fun split_comma :: "string \<Rightarrow> string list" where
  "split_comma [] = [[]]"
| "split_comma (c # cs) =
     (if c = CHR '','' then [] # split_comma cs
      else (case split_comma cs of
              [] \<Rightarrow> [[c]]
            | w # ws \<Rightarrow> (c # w) # ws))"

text \<open>
  \<^verbatim>\<open>xs[key]\<close> for an array and a string key.  The key names an element when it is the
  canonical decimal numeral of an index inside the array, and \<^verbatim>\<open>length\<close> names the length, a
  number.  Any other key is looked up in \<^verbatim>\<open>Array.prototype\<close> and \<^verbatim>\<open>Object.prototype\<close>:
  \<^verbatim>\<open>__proto__\<close> names the prototype object, \<open>Prototype\<close>, every other inherited name a function,
  \<open>Method\<close>.  The names are those of the standard library (ECMAScript 2025).  A key found
  nowhere gives \<^verbatim>\<open>undefined\<close>.  \<^verbatim>\<open>coords[1]\<close> is \<^verbatim>\<open>undefined\<close> when the string has no comma, and
  then the key is the string \<^verbatim>\<open>undefined\<close>.
\<close>

datatype 'a property = Undefined | Number nat | Element 'a | Method | Prototype

definition array_prototype_names :: "string list" where
  "array_prototype_names =
     [''at'', ''concat'', ''copyWithin'', ''entries'', ''every'', ''fill'', ''filter'', ''find'',
      ''findIndex'', ''findLast'', ''findLastIndex'', ''flat'', ''flatMap'', ''forEach'',
      ''includes'', ''indexOf'', ''join'', ''keys'', ''lastIndexOf'', ''map'', ''pop'', ''push'',
      ''reduce'', ''reduceRight'', ''reverse'', ''shift'', ''slice'', ''some'', ''sort'',
      ''splice'', ''toReversed'', ''toSorted'', ''toSpliced'', ''unshift'', ''values'', ''with'']"

definition is_index_key :: "string \<Rightarrow> bool" where
  "is_index_key k =
     (k \<noteq> [] \<and> list_all (\<lambda>c. c \<in> set ''0123456789'') k \<and> (hd k \<noteq> CHR ''0'' \<or> k = ''0''))"

definition key_value :: "string \<Rightarrow> nat" where
  "key_value k = foldl (\<lambda>n c. 10 * n + (of_char c - 48)) 0 k"

definition array_get :: "'a list \<Rightarrow> string \<Rightarrow> 'a property" where
  "array_get xs k =
     (if is_index_key k \<and> key_value k < length xs then Element (xs ! key_value k)
      else if k = ''length'' then Number (length xs)
      else if k = ''__proto__'' then Prototype
      else if k \<in> set array_prototype_names \<or> k \<in> set object_prototype_names then Method
      else Undefined)"

definition coord_key :: "string list \<Rightarrow> nat \<Rightarrow> string" where
  "coord_key coords i = (if i < length coords then coords ! i else ''undefined'')"

text \<open>
  \<^verbatim>\<open>this.colony.getPlaces()[coords[0]][coords[1]]\<close>.  The result is \<open>Some\<close> of a place, or
  \<open>None\<close> for a value that is not a \<^verbatim>\<open>Place\<close>.  The second read throws a TypeError when the
  first gave \<^verbatim>\<open>undefined\<close>, and when the first gave a built-in function and the key is
  \<^verbatim>\<open>caller\<close> or \<^verbatim>\<open>arguments\<close>, whose inherited getter always throws.  Every other read of
  a property of a number, of a function, of the prototype or of a row returns a value.
\<close>

definition place_at :: "game \<Rightarrow> string \<Rightarrow> error + place_ref option" where
  "place_at s placeCoordinates =
     (let coords = split_comma placeCoordinates in
      case array_get (places s) (coord_key coords 0) of
        Undefined \<Rightarrow> Inl TypeError
      | Number n \<Rightarrow> Inr None
      | Prototype \<Rightarrow> Inr None
      | Method \<Rightarrow>
          (if coord_key coords 1 = ''caller'' \<or> coord_key coords 1 = ''arguments''
           then Inl TypeError else Inr None)
      | Element row \<Rightarrow>
          (case array_get row (coord_key coords 1) of
             Element p \<Rightarrow> Inr (Some p)
           | _ \<Rightarrow> Inr None))"

definition empty_place :: place_obj where
  "empty_place =
     \<lparr>p_ant = None, p_guard = None, p_bees = [], p_water = False, p_exit = None,
      p_entrance = None\<rparr>"

text \<open>
  The constructors of the five ant classes: armor and food cost as passed to \<^verbatim>\<open>super\<close>.
  \<^verbatim>\<open>new EaterAnt()\<close> also allocates its stomach.
\<close>

definition new_Ant :: "game \<Rightarrow> ant_kind \<Rightarrow> int \<Rightarrow> int \<Rightarrow> nat \<times> game" where
  "new_Ant s kind armor foodCost =
     (next_ant s,
      s\<lparr>heap_ants := (heap_ants s)(next_ant s :=
           \<lparr>a_kind = kind, a_armor = armor, a_foodCost = foodCost, a_place = None,
            a_boost = None, a_turnsEating = 0\<rparr>),
        next_ant := next_ant s + 1\<rparr>)"

definition new_GrowerAnt :: "game \<Rightarrow> nat \<times> game" where
  "new_GrowerAnt s = new_Ant s Grower 1 1"

definition new_ThrowerAnt :: "game \<Rightarrow> nat \<times> game" where
  "new_ThrowerAnt s = new_Ant s Thrower 1 4"

definition new_EaterAnt :: "game \<Rightarrow> nat \<times> game" where
  "new_EaterAnt s =
     (let (ant, s1) = new_Ant s Eater 2 4
      in (ant, upd_place (StomachPlace ant) (\<lambda>pl. empty_place) s1))"

definition new_ScubaAnt :: "game \<Rightarrow> nat \<times> game" where
  "new_ScubaAnt s = new_Ant s Scuba 1 5"

definition new_GuardAnt :: "game \<Rightarrow> nat \<times> game" where
  "new_GuardAnt s = new_Ant s Guard 2 4"

text \<open>
  The three commands.  Everything inside \<^verbatim>\<open>try\<close> that throws is caught and turned into
  \<^verbatim>\<open>'illegal location'\<close>; the only statements that can throw do so before any field is
  written, so the state at the \<^verbatim>\<open>catch\<close> is the state at the \<^verbatim>\<open>try\<close>.
\<close>

definition AntGame_deployAnt :: "game \<Rightarrow> string \<Rightarrow> string \<Rightarrow> string option \<times> game" where
  "AntGame_deployAnt s antType placeCoordinates =
     (let lowered = toLowerCase antType in
      case (if lowered = ''grower'' then Some (new_GrowerAnt s)
            else if lowered = ''thrower'' then Some (new_ThrowerAnt s)
            else if lowered = ''eater'' then Some (new_EaterAnt s)
            else if lowered = ''scuba'' then Some (new_ScubaAnt s)
            else if lowered = ''guard'' then Some (new_GuardAnt s)
            else None) of
        None \<Rightarrow> (Some ''unknown ant type'', s)
      | Some (ant, s1) \<Rightarrow>
          (case place_at s1 placeCoordinates of
             Inl e \<Rightarrow> (Some ''illegal location'', s1)
           | Inr place \<Rightarrow>
               (case deployAnt s1 ant place of
                  Inl e \<Rightarrow> (Some ''illegal location'', s1)
                | Inr r \<Rightarrow> r)))"

definition AntGame_removeAnt :: "game \<Rightarrow> string \<Rightarrow> string option \<times> game" where
  "AntGame_removeAnt s placeCoordinates =
     (case place_at s placeCoordinates of
        Inl e \<Rightarrow> (Some ''illegal location'', s)
      | Inr None \<Rightarrow> (Some ''illegal location'', s)
      | Inr (Some p) \<Rightarrow> (None, snd (removeAnt s p)))"

definition AntGame_boostAnt :: "game \<Rightarrow> string \<Rightarrow> string \<Rightarrow> string option \<times> game" where
  "AntGame_boostAnt s boostType placeCoordinates =
     (case place_at s placeCoordinates of
        Inl e \<Rightarrow> (Some ''illegal location'', s)
      | Inr place \<Rightarrow>
          (case applyBoost s boostType place of
             Inl e \<Rightarrow> (Some ''illegal location'', s)
           | Inr r \<Rightarrow> r))"

subsection \<open>Construction\<close>

text \<open>
  The constructor of \<^verbatim>\<open>AntColony\<close>: \<open>colony_step\<close> is the body of the inner loop with its
  variables \<open>cur\<close> (\<^verbatim>\<open>curr\<close>), \<open>prv\<close> (\<^verbatim>\<open>prev\<close>) and the row built so far, \<open>colony_tunnel\<close> the body of the outer loop.
\<close>

definition colony_step ::
  "nat \<Rightarrow> nat \<Rightarrow> nat \<Rightarrow> place_ref \<times> (place_ref \<Rightarrow> place_obj) \<times> place_ref list \<Rightarrow>
   place_ref \<times> (place_ref \<Rightarrow> place_obj) \<times> place_ref list" where
  "colony_step tunnel moatFrequency step st =
     (case st of (cur, h, row) \<Rightarrow>
        (let water = (moatFrequency \<noteq> 0 \<and> (step + 1) mod moatFrequency = 0);
             prv = cur;
             nxt = TunnelPlace tunnel step;
             h1 = h(nxt := empty_place\<lparr>p_water := water, p_exit := Some prv\<rparr>);
             h2 = h1(prv := (h1 prv)\<lparr>p_entrance := Some nxt\<rparr>)
         in (nxt, h2, row @ [nxt])))"

definition colony_tunnel ::
  "nat \<Rightarrow> nat \<Rightarrow> nat \<Rightarrow> (place_ref \<Rightarrow> place_obj) \<times> place_ref list list \<times> place_ref list \<Rightarrow>
   (place_ref \<Rightarrow> place_obj) \<times> place_ref list list \<times> place_ref list" where
  "colony_tunnel tunnelLength moatFrequency tunnel st =
     (case st of (h, grid, entrances) \<Rightarrow>
        (case fold (colony_step tunnel moatFrequency) [0..<tunnelLength] (QueenPlace, h, []) of
           (cur, h', row) \<Rightarrow> (h', grid @ [row], entrances @ [cur])))"

definition default_ant :: ant_obj where
  "default_ant =
     \<lparr>a_kind = Grower, a_armor = 0, a_foodCost = 0, a_place = None, a_boost = None,
      a_turnsEating = 0\<rparr>"

definition default_bee :: bee_obj where
  "default_bee = \<lparr>b_armor = 0, b_damage = 0, b_place = None, b_status = None\<rparr>"

text \<open>
  \<^verbatim>\<open>new AntGame(new AntColony(startingFood, numTunnels, tunnelLength, moatFrequency),
  new Hive(beeArmor, beeDamage))\<close>, with the values \<open>rnd\<close> that \<^verbatim>\<open>Math.random()\<close> will return.
  No ant and no bee is allocated yet.
\<close>

definition new_AntGame ::
  "int \<Rightarrow> nat \<Rightarrow> nat \<Rightarrow> nat \<Rightarrow> int \<Rightarrow> int \<Rightarrow> (nat \<Rightarrow> real) \<Rightarrow> game" where
  "new_AntGame startingFood numTunnels tunnelLength moatFrequency armor damage rnd =
     (case fold (colony_tunnel tunnelLength moatFrequency) [0..<numTunnels]
             (\<lambda>p. empty_place, [], []) of
        (h, grid, entrances) \<Rightarrow>
          \<lparr>heap_places = h, heap_ants = (\<lambda>a. default_ant), heap_bees = (\<lambda>b. default_bee),
           next_ant = 0, next_bee = 0, food = startingFood, places = grid,
           beeEntrances = entrances,
           boosts = [''FlyingLeaf'' \<mapsto> Count 1, ''StickyLeaf'' \<mapsto> Count 1,
                     ''IcyLeaf'' \<mapsto> Count 1, ''BugSpray'' \<mapsto> Count 0],
           waves = Map.empty, beeArmor = armor, beeDamage = damage, turn = 0,
           rolls = rnd, roll_ix = 0\<rparr>)"

subsection \<open>Runs of the game\<close>

text \<open>
  The operations a driver performs on a game: the four commands of \<^verbatim>\<open>AntGame\<close> and
  \<^verbatim>\<open>Hive.addWave\<close>.  A run stops at the first uncaught exception.
\<close>

datatype command =
    TakeTurn nat
  | DeployAnt string string
  | RemoveAnt string
  | BoostAnt string string
  | AddWave int nat

definition exec :: "command \<Rightarrow> game \<Rightarrow> error + game" where
  "exec c s =
     (case c of
        TakeTurn fuel \<Rightarrow> takeTurn fuel s
      | DeployAnt antType coords \<Rightarrow> Inr (snd (AntGame_deployAnt s antType coords))
      | RemoveAnt coords \<Rightarrow> Inr (snd (AntGame_removeAnt s coords))
      | BoostAnt boostType coords \<Rightarrow> Inr (snd (AntGame_boostAnt s boostType coords))
      | AddWave attackTurn numBees \<Rightarrow> Inr (addWave s attackTurn numBees))"

fun run :: "command list \<Rightarrow> game \<Rightarrow> error + game" where
  "run [] s = Inr s"
| "run (c # cs) s =
     (case exec c s of
        Inl e \<Rightarrow> Inl e
      | Inr s1 \<Rightarrow> run cs s1)"

section \<open>Notions used to state the properties\<close>

text \<open>The slot of a place that \<^verbatim>\<open>addAnt\<close> would use for the given ant.\<close>

definition matching_slot :: "game \<Rightarrow> place_ref \<Rightarrow> nat \<Rightarrow> nat option" where
  "matching_slot s p ant =
     (if a_kind (heap_ants s ant) = Guard then p_guard (heap_places s p)
      else p_ant (heap_places s p))"

subsection \<open>Example games\<close>

text \<open>
  A colony of one tunnel with one section and 10 food, a hive of bees with armor 2 and
  damage 1, and \<^verbatim>\<open>Math.random()\<close> returning 0; the same game after the command
  \<^verbatim>\<open>deploy Thrower 0,0\<close>, and after \<^verbatim>\<open>deploy Grower 0,0\<close> and \<^verbatim>\<open>deploy Guard 0,0\<close>.
\<close>

definition tiny_game :: game where
  "tiny_game = new_AntGame 10 1 1 0 2 1 (\<lambda>n. 0)"

definition thrower_game :: game where
  "thrower_game = snd (AntGame_deployAnt tiny_game ''Thrower'' ''0,0'')"

definition guarded_game :: game where
  "guarded_game =
     snd (AntGame_deployAnt (snd (AntGame_deployAnt tiny_game ''Grower'' ''0,0''))
            ''Guard'' ''0,0'')"

subsection \<open>The walk of \<^verbatim>\<open>getClosestBee\<close>, as the specification words it\<close>

text \<open>
  \<open>chain s (Some p) n\<close> lists the places at distances \<open>0, 1, \<dots>, n - 1\<close> from \<open>p\<close> along the
  entrance links, stopping where the links end.  \<open>closest_attacker\<close> takes the places at
  distances up to \<open>max_distance\<close>, leaves out those nearer than \<open>min_distance\<close>, and returns
  the first bee (the earliest arrival) of the first remaining place that holds a bee.
\<close>

fun chain :: "game \<Rightarrow> place_ref option \<Rightarrow> nat \<Rightarrow> place_ref list" where
  "chain s None n = []"
| "chain s (Some p) 0 = []"
| "chain s (Some p) (Suc n) = p # chain s (p_entrance (heap_places s p)) n"

definition closest_attacker :: "game \<Rightarrow> place_ref \<Rightarrow> int \<Rightarrow> int \<Rightarrow> nat option" where
  "closest_attacker s p max_distance min_distance =
     (case filter (\<lambda>q. p_bees (heap_places s q) \<noteq> [])
             (drop (nat min_distance) (chain s (Some p) (nat (max_distance + 1)))) of
        [] \<Rightarrow> None
      | q # _ \<Rightarrow> Some (hd (p_bees (heap_places s q))))"

text \<open>
  A colony of one tunnel with five sections, and the same game after one bee was
  scheduled for turn 0 and one turn was taken: the bee is at the entrance, section 4.
\<close>

definition five_game :: game where
  "five_game = new_AntGame 10 1 5 0 2 1 (\<lambda>n. 0)"

definition invaded_game :: game where
  "invaded_game = (case run [AddWave 0 1, TakeTurn 0] five_game of Inr s \<Rightarrow> s | Inl e \<Rightarrow> five_game)"


subsection \<open>Example games with a bee on the board\<close>

text \<open>
  On the board of \<open>invaded_game\<close>, whose bee is in section 4: a Thrower in section 0 and a
  Scuba in section 1, each given an IcyLeaf, and an Eater in section 4.
\<close>

definition icy_far_game :: game where
  "icy_far_game =
     snd (AntGame_boostAnt (snd (AntGame_deployAnt invaded_game ''Thrower'' ''0,0''))
            ''IcyLeaf'' ''0,0'')"

definition icy_near_game :: game where
  "icy_near_game =
     snd (AntGame_boostAnt (snd (AntGame_deployAnt invaded_game ''Scuba'' ''0,1''))
            ''IcyLeaf'' ''0,1'')"

definition eater_game :: game where
  "eater_game = snd (AntGame_deployAnt invaded_game ''Eater'' ''0,4'')"


subsection \<open>Further notions and examples\<close>

text \<open>The one-section colony with 3 food, less than any ant but the Grower costs.\<close>

definition poor_game :: game where
  "poor_game = new_AntGame 3 1 1 0 2 1 (\<lambda>n. 0)"

text \<open>How often the act of an ant is executed in one sweep of \<^verbatim>\<open>antsAct\<close>.\<close>

definition act_count :: "nat \<Rightarrow> game \<Rightarrow> nat \<Rightarrow> error + nat" where
  "act_count fuel s ant =
     (case antsAct_calls fuel s of
        Inl e \<Rightarrow> Inl e
      | Inr (acted, s') \<Rightarrow> Inr (count_list acted ant))"


subsection \<open>Invariants of the board\<close>

text \<open>
  \<open>cells\<close> are the places of the board.  \<open>slots_ok\<close>: the guard slot of a place holds only
  a Guard and the other slot only an ant that is not a Guard, both allocated and with their
  place set to this place.  \<open>evolves P s s'\<close>: from \<open>s\<close> to \<open>s'\<close> the board, the number of
  allocated ants, the entrances of the colony, the class and the place of every ant and
  all entrance and exit links are the same, the turn counter and the number of allocated
  bees have not decreased,
  and a slot is the same or, for a place in \<open>P\<close>, has been emptied.
\<close>

definition cells :: "game \<Rightarrow> place_ref set" where
  "cells s = set (concat (places s))"

definition slots_ok :: "game \<Rightarrow> bool" where
  "slots_ok s \<longleftrightarrow>
     (\<forall>p g. p_guard (heap_places s p) = Some g \<longrightarrow>
        g < next_ant s \<and> a_kind (heap_ants s g) = Guard \<and> a_place (heap_ants s g) = Some p) \<and>
     (\<forall>p a. p_ant (heap_places s p) = Some a \<longrightarrow>
        a < next_ant s \<and> a_kind (heap_ants s a) \<noteq> Guard \<and> a_place (heap_ants s a) = Some p)"

definition evolves :: "place_ref set \<Rightarrow> game \<Rightarrow> game \<Rightarrow> bool" where
  "evolves P s s' \<longleftrightarrow>
     places s' = places s \<and> beeEntrances s' = beeEntrances s \<and> next_ant s' = next_ant s \<and>
     turn s \<le> turn s' \<and> next_bee s \<le> next_bee s' \<and>
     (\<forall>a. a_kind (heap_ants s' a) = a_kind (heap_ants s a) \<and>
          a_place (heap_ants s' a) = a_place (heap_ants s a)) \<and>
     (\<forall>p. p_entrance (heap_places s' p) = p_entrance (heap_places s p) \<and>
          p_exit (heap_places s' p) = p_exit (heap_places s p) \<and>
          (p_guard (heap_places s' p) = p_guard (heap_places s p) \<or>
             p \<in> P \<and> p_guard (heap_places s' p) = None) \<and>
          (p_ant (heap_places s' p) = p_ant (heap_places s p) \<or>
             p \<in> P \<and> p_ant (heap_places s' p) = None))"

text \<open>
  The defenders of a place, and how many of them are Guards and how many are not.
\<close>

definition defenders :: "game \<Rightarrow> place_ref \<Rightarrow> nat list" where
  "defenders s p =
     (case p_guard (heap_places s p) of None \<Rightarrow> [] | Some g \<Rightarrow> [g]) @
     (case p_ant (heap_places s p) of None \<Rightarrow> [] | Some a \<Rightarrow> [a])"

definition guard_count :: "game \<Rightarrow> place_ref \<Rightarrow> nat" where
  "guard_count s p = length (filter (\<lambda>a. a_kind (heap_ants s a) = Guard) (defenders s p))"

definition regular_count :: "game \<Rightarrow> place_ref \<Rightarrow> nat" where
  "regular_count s p = length (filter (\<lambda>a. a_kind (heap_ants s a) \<noteq> Guard) (defenders s p))"

text \<open>
  An ant that is allocated and in no slot; a store of places without ants and bees and
  without a link to the hive; the board that the constructor builds.
\<close>

definition fresh_ant :: "game \<Rightarrow> nat \<Rightarrow> bool" where
  "fresh_ant s ant \<longleftrightarrow> ant < next_ant s \<and>
     (\<forall>q. p_guard (heap_places s q) \<noteq> Some ant \<and> p_ant (heap_places s q) \<noteq> Some ant)"

definition clean_heap :: "(place_ref \<Rightarrow> place_obj) \<Rightarrow> bool" where
  "clean_heap h \<longleftrightarrow>
     (\<forall>p. p_ant (h p) = None \<and> p_guard (h p) = None \<and> p_bees (h p) = [] \<and>
          p_entrance (h p) \<noteq> Some HivePlace \<and> p_exit (h p) \<noteq> Some HivePlace)"

definition board :: "nat \<Rightarrow> nat \<Rightarrow> place_ref list list" where
  "board numTunnels tunnelLength =
     map (\<lambda>tunnel. map (TunnelPlace tunnel) [0..<tunnelLength]) [0..<numTunnels]"

subsection \<open>Bees that wait in the hive\<close>

text \<open>
  \<open>hive_apart\<close>: no ant is placed in the hive, no link leads to it, and it is neither a
  place of the board nor an entrance.  \<open>away s b\<close>: the bee \<open>b\<close> is in the list of no place but
  possibly the hive's.  \<open>untouched b s s'\<close>: from \<open>s\<close> to \<open>s'\<close> the bee \<open>b\<close> is in the same lists, and
  the waves, the number of allocated bees and the turn are the same.
\<close>

definition hive_apart :: "game \<Rightarrow> bool" where
  "hive_apart s \<longleftrightarrow>
     (\<forall>a. a_place (heap_ants s a) \<noteq> Some HivePlace) \<and>
     (\<forall>p. p_entrance (heap_places s p) \<noteq> Some HivePlace \<and>
          p_exit (heap_places s p) \<noteq> Some HivePlace) \<and>
     HivePlace \<notin> set (concat (places s)) \<and> HivePlace \<notin> set (beeEntrances s)"

definition away :: "game \<Rightarrow> nat \<Rightarrow> bool" where
  "away s b \<longleftrightarrow> (\<forall>q. q \<noteq> HivePlace \<longrightarrow> b \<notin> set (p_bees (heap_places s q)))"

definition untouched :: "nat \<Rightarrow> game \<Rightarrow> game \<Rightarrow> bool" where
  "untouched b s s' \<longleftrightarrow>
     (\<forall>q. (b \<in> set (p_bees (heap_places s' q))) = (b \<in> set (p_bees (heap_places s q)))) \<and>
     waves s' = waves s \<and> next_bee s' = next_bee s \<and> turn s' = turn s"

text \<open>
  \<open>unborn s b\<close>: a bee that is not allocated yet is in no list and in no wave.
  \<open>parked_in s b K\<close>: the bee \<open>b\<close> is allocated, it is in the hive and nowhere else, and only
  waves with a turn in \<open>K\<close> contain it.
\<close>

definition unborn :: "game \<Rightarrow> nat \<Rightarrow> bool" where
  "unborn s b \<longleftrightarrow>
     (next_bee s \<le> b \<longrightarrow>
        (\<forall>q. b \<notin> set (p_bees (heap_places s q))) \<and>
        (\<forall>t w. waves s t = Some w \<longrightarrow> b \<notin> set w))"

definition parked_in :: "game \<Rightarrow> nat \<Rightarrow> int set \<Rightarrow> bool" where
  "parked_in s b K \<longleftrightarrow>
     b < next_bee s \<and> b \<in> set (p_bees (heap_places s HivePlace)) \<and> away s b \<and>
     (\<forall>t w. waves s t = Some w \<and> b \<in> set w \<longrightarrow> t \<in> K)"

text \<open>
  On the one-section colony: one bee scheduled for turn 0, one turn taken, and one bee
  scheduled for turn 0 again; and one bee scheduled for turn 0 twice, then one turn taken.
\<close>

definition rescheduled_game :: game where
  "rescheduled_game =
     (case run [AddWave 0 1, TakeTurn 0, AddWave 0 1] tiny_game of
        Inr s \<Rightarrow> s
      | Inl e \<Rightarrow> tiny_game)"

definition doubled_game :: game where
  "doubled_game =
     (case run [TakeTurn 0] (addWave (addWave tiny_game 0 1) 0 1) of
        Inr s \<Rightarrow> s
      | Inl e \<Rightarrow> tiny_game)"

text \<open>
  The one-section colony against bees of armor 1, and the game after a Thrower was
  deployed, one bee was scheduled for turn 0, the turn was taken, an empty wave was
  scheduled for turn 0, and a second turn was taken.
\<close>

definition weak_game :: game where
  "weak_game = new_AntGame 10 1 1 0 1 1 (\<lambda>n. 0)"

definition cleared_game :: game where
  "cleared_game =
     (case run [DeployAnt ''Thrower'' ''0,0'', AddWave 0 1, TakeTurn 0, AddWave 0 0, TakeTurn 0]
             weak_game of
        Inr s \<Rightarrow> s
      | Inl e \<Rightarrow> weak_game)"

section \<open>The example games, evaluated\<close>

lemma tiny_game_eq:
  "tiny_game =
    \<lparr>heap_places = (\<lambda>p. empty_place)
        (TunnelPlace 0 0 := empty_place\<lparr>p_exit := Some QueenPlace\<rparr>,
         QueenPlace := empty_place\<lparr>p_entrance := Some (TunnelPlace 0 0)\<rparr>),
     heap_ants = (\<lambda>a. default_ant), heap_bees = (\<lambda>b. default_bee),
     next_ant = 0, next_bee = 0, food = 10, places = [[TunnelPlace 0 0]],
     beeEntrances = [TunnelPlace 0 0],
     boosts = [''FlyingLeaf'' \<mapsto> Count 1, ''StickyLeaf'' \<mapsto> Count 1,
               ''IcyLeaf'' \<mapsto> Count 1, ''BugSpray'' \<mapsto> Count 0],
     waves = Map.empty, beeArmor = 2, beeDamage = 1, turn = 0,
     rolls = (\<lambda>n. 0), roll_ix = 0\<rparr>"
  by (simp add: tiny_game_def new_AntGame_def colony_tunnel_def colony_step_def Let_def
      empty_place_def)

lemmas command_defs =
  AntGame_deployAnt_def AntGame_boostAnt_def AntGame_removeAnt_def toLowerCase_def
  lower_char_def new_ThrowerAnt_def new_GrowerAnt_def new_GuardAnt_def new_ScubaAnt_def
  new_EaterAnt_def new_Ant_def place_at_def array_get_def is_index_key_def key_value_def
  coord_key_def deployAnt_def applyBoost_def boosts_get_def object_prototype_names_def
  array_prototype_names_def addAnt_def removeAnt_def setBoost_def getAnt_def
  upd_ant_def upd_place_def upd_bee_def Let_def empty_place_def

lemma thrower_game_fields:
  "food thrower_game = 6"
  "next_ant thrower_game = 1"
  "p_ant (heap_places thrower_game (TunnelPlace 0 0)) = Some 0"
  "p_guard (heap_places thrower_game (TunnelPlace 0 0)) = None"
  "a_kind (heap_ants thrower_game 0) = Thrower"
  "a_place (heap_ants thrower_game 0) = Some (TunnelPlace 0 0)"
  "a_boost (heap_ants thrower_game 0) = None"
  "boosts thrower_game ''IcyLeaf'' = Some (Count 1)"
  "boosts thrower_game ''BugSpray'' = Some (Count 0)"
  "boosts thrower_game ''Honey'' = None"
  "p_bees (heap_places thrower_game (TunnelPlace 0 0)) = []"
  "p_entrance (heap_places thrower_game (TunnelPlace 0 0)) = None"
  by (simp_all add: thrower_game_def tiny_game_eq command_defs)

section \<open>Win and loss\<close>

lemma getAllBees_length:
  "length (getAllBees s) = (\<Sum>p\<leftarrow>concat (places s). length (getBees s p))"
  by (simp add: getAllBees_def length_concat comp_def)

text \<open>
  C2.  \<^verbatim>\<open>gameIsWon\<close> reports lost (\<open>Some False\<close>) exactly when the list of bees of the queen's
  place is not empty, whatever the other places hold; it reports won (\<open>Some True\<close>) exactly
  when that list is empty, the lists of the places of the board are empty and the list of
  the hive is empty; it reports undecided (\<open>None\<close>) in the remaining case.  The loss test
  comes first.
\<close>

theorem gameIsWon_outcome:
  "(gameIsWon s = Some False \<longleftrightarrow> p_bees (heap_places s QueenPlace) \<noteq> []) \<and>
   (gameIsWon s = Some True \<longleftrightarrow>
      p_bees (heap_places s QueenPlace) = [] \<and>
      (\<Sum>p\<leftarrow>concat (places s). length (p_bees (heap_places s p))) = 0 \<and>
      p_bees (heap_places s HivePlace) = []) \<and>
   (gameIsWon s = None \<longleftrightarrow>
      p_bees (heap_places s QueenPlace) = [] \<and>
      ((\<Sum>p\<leftarrow>concat (places s). length (p_bees (heap_places s p))) \<noteq> 0 \<or>
       p_bees (heap_places s HivePlace) \<noteq> []))"
  unfolding gameIsWon_def queenHasBees_def getAllBees_length getBees_def by auto

text \<open>
  The three outcomes on the one-section colony: no bee anywhere; a bee at the queen, with
  and without bees in the tunnel and in the hive; a bee in the tunnel only, and a bee in the
  hive only.
\<close>

theorem gameIsWon_outcome_witness:
  "gameIsWon tiny_game = Some True \<and>
   gameIsWon (addBee tiny_game QueenPlace 0) = Some False \<and>
   gameIsWon (addBee (addBee (addBee tiny_game HivePlace 2) (TunnelPlace 0 0) 1) QueenPlace 0)
     = Some False \<and>
   gameIsWon (addBee tiny_game (TunnelPlace 0 0) 0) = None \<and>
   gameIsWon (addBee tiny_game HivePlace 0) = None"
proof -
  let ?t = "TunnelPlace 0 0"
  let ?lost = "addBee (addBee (addBee tiny_game HivePlace 2) ?t 1) QueenPlace 0"
  have c1: "gameIsWon tiny_game = Some True"
    using gameIsWon_outcome[of tiny_game] by (simp add: tiny_game_eq empty_place_def)
  have c2: "gameIsWon (addBee tiny_game QueenPlace 0) = Some False"
    using gameIsWon_outcome[of "addBee tiny_game QueenPlace 0"]
    by (simp add: tiny_game_eq empty_place_def addBee_def upd_place_def upd_bee_def)
  have c3: "gameIsWon ?lost = Some False"
    using gameIsWon_outcome[of ?lost]
    by (simp add: tiny_game_eq empty_place_def addBee_def upd_place_def upd_bee_def)
  have c4: "gameIsWon (addBee tiny_game ?t 0) = None"
    using gameIsWon_outcome[of "addBee tiny_game ?t 0"]
    by (simp add: tiny_game_eq empty_place_def addBee_def upd_place_def upd_bee_def)
  have c5: "gameIsWon (addBee tiny_game HivePlace 0) = None"
    using gameIsWon_outcome[of "addBee tiny_game HivePlace 0"]
    by (simp add: tiny_game_eq empty_place_def addBee_def upd_place_def upd_bee_def)
  from c1 c2 c3 c4 c5 show ?thesis by blast
qed

section \<open>Deploying and boosting through the colony\<close>

text \<open>
  C3.  \<^verbatim>\<open>AntColony.deployAnt\<close> at a place: with less food than the ant costs it returns
  \<^verbatim>\<open>'not enough food'\<close> and changes nothing; with enough food and the matching slot taken
  it returns \<^verbatim>\<open>'tunnel already occupied'\<close> and changes nothing; with enough food and the
  matching slot free it returns \<^verbatim>\<open>undefined\<close>, the ant is in the slot with its place set, and
  the food is lowered by exactly the cost of the ant.
\<close>

theorem deployAnt_results:
  "(food s < a_foodCost (heap_ants s ant) \<longrightarrow>
      deployAnt s ant (Some p) = Inr (Some ''not enough food'', s)) \<and>
   (a_foodCost (heap_ants s ant) \<le> food s \<and> matching_slot s p ant \<noteq> None \<longrightarrow>
      deployAnt s ant (Some p) = Inr (Some ''tunnel already occupied'', s)) \<and>
   (a_foodCost (heap_ants s ant) \<le> food s \<and> matching_slot s p ant = None \<longrightarrow>
      (\<exists>s'. deployAnt s ant (Some p) = Inr (None, s') \<and>
            food s' = food s - a_foodCost (heap_ants s ant) \<and>
            matching_slot s' p ant = Some ant \<and>
            a_place (heap_ants s' ant) = Some p))"
  by (auto simp: deployAnt_def addAnt_def matching_slot_def upd_ant_def upd_place_def)

theorem deployAnt_results_witness:
  "deployAnt (snd (new_ThrowerAnt (tiny_game\<lparr>food := 3\<rparr>))) 0 (Some (TunnelPlace 0 0)) =
     Inr (Some ''not enough food'', snd (new_ThrowerAnt (tiny_game\<lparr>food := 3\<rparr>))) \<and>
   deployAnt (snd (new_ThrowerAnt thrower_game)) 1 (Some (TunnelPlace 0 0)) =
     Inr (Some ''tunnel already occupied'', snd (new_ThrowerAnt thrower_game)) \<and>
   (\<exists>s'. deployAnt (snd (new_ThrowerAnt tiny_game)) 0 (Some (TunnelPlace 0 0)) = Inr (None, s') \<and>
         food s' = 6 \<and> p_ant (heap_places s' (TunnelPlace 0 0)) = Some 0)"
proof -
  let ?p = "TunnelPlace 0 0"
  let ?s1 = "snd (new_ThrowerAnt (tiny_game\<lparr>food := 3\<rparr>))"
  let ?s2 = "snd (new_ThrowerAnt thrower_game)"
  let ?s3 = "snd (new_ThrowerAnt tiny_game)"
  have h1: "food ?s1 < a_foodCost (heap_ants ?s1 0)"
    by (simp add: tiny_game_eq new_ThrowerAnt_def new_Ant_def)
  have h2: "a_foodCost (heap_ants ?s2 1) \<le> food ?s2 \<and> matching_slot ?s2 ?p 1 \<noteq> None"
    by (simp add: thrower_game_fields new_ThrowerAnt_def new_Ant_def matching_slot_def)
  have h3: "a_foodCost (heap_ants ?s3 0) \<le> food ?s3 \<and> matching_slot ?s3 ?p 0 = None"
    by (simp add: tiny_game_eq new_ThrowerAnt_def new_Ant_def matching_slot_def empty_place_def)
  have k3: "food ?s3 - a_foodCost (heap_ants ?s3 0) = 6" "a_kind (heap_ants ?s3 0) \<noteq> Guard"
    by (simp_all add: tiny_game_eq new_ThrowerAnt_def new_Ant_def)
  from deployAnt_results[of ?s1 0 ?p] h1 have c1:
    "deployAnt ?s1 0 (Some ?p) = Inr (Some ''not enough food'', ?s1)" by blast
  from deployAnt_results[of ?s2 1 ?p] h2 have c2:
    "deployAnt ?s2 1 (Some ?p) = Inr (Some ''tunnel already occupied'', ?s2)" by blast
  from deployAnt_results[of ?s3 0 ?p] h3 obtain s' where
    "deployAnt ?s3 0 (Some ?p) = Inr (None, s')"
    "food s' = food ?s3 - a_foodCost (heap_ants ?s3 0)" "matching_slot s' ?p 0 = Some 0"
    by blast
  moreover have "a_kind (heap_ants s' 0) \<noteq> Guard"
    using calculation(1) k3(2)
    by (auto simp: deployAnt_def addAnt_def upd_ant_def upd_place_def split: if_splits)
  ultimately have c3: "\<exists>s'. deployAnt ?s3 0 (Some ?p) = Inr (None, s') \<and> food s' = 6 \<and>
      p_ant (heap_places s' ?p) = Some 0"
    using k3(1) by (auto simp: matching_slot_def)
  from c1 c2 c3 show ?thesis by blast
qed

text \<open>
  C6.  \<^verbatim>\<open>AntColony.applyBoost\<close> at a place, for every boost name.  It returns
  \<^verbatim>\<open>'no such boost'\<close> when the inventory has a count below 1 for the name, and when it has no
  entry for the name and \<^verbatim>\<open>Object.prototype\<close> has no property of that name.  In the other
  cases the inventory test passes: a count of at least 1, an entry that is not a number,
  and no entry but a name that \<^verbatim>\<open>Object.prototype\<close> defines, such as \<^verbatim>\<open>constructor\<close>.  Then
  with no ant at the place it returns \<^verbatim>\<open>'no Ant at location'\<close>; with an ant at the place (the
  guard when there is one) it returns \<^verbatim>\<open>undefined\<close>, that ant's boost is the name, and the
  whole inventory is as before: nothing is decremented.
\<close>

theorem applyBoost_results:
  "((boosts s boost = None \<and> boost \<notin> set object_prototype_names) \<or>
    (\<exists>n. boosts s boost = Some (Count n) \<and> n < 1) \<longrightarrow>
      applyBoost s boost (Some p) = Inr (Some ''no such boost'', s)) \<and>
   (((\<exists>n. boosts s boost = Some (Count n) \<and> 1 \<le> n) \<or> boosts s boost = Some NotNumber \<or>
     (boosts s boost = None \<and> boost \<in> set object_prototype_names)) \<longrightarrow>
      (p_guard (heap_places s p) = None \<and> p_ant (heap_places s p) = None \<longrightarrow>
         applyBoost s boost (Some p) = Inr (Some ''no Ant at location'', s)) \<and>
      (p_guard (heap_places s p) = Some ant \<or>
       p_guard (heap_places s p) = None \<and> p_ant (heap_places s p) = Some ant \<longrightarrow>
         (\<exists>s'. applyBoost s boost (Some p) = Inr (None, s') \<and>
               a_boost (heap_ants s' ant) = Some boost \<and> boosts s' = boosts s)))"
  by (auto simp: applyBoost_def boosts_get_def getAnt_def setBoost_def upd_ant_def)

text \<open>
  On the one-section colony with a Thrower: an unknown name and a count of 0 are refused;
  \<^verbatim>\<open>IcyLeaf\<close> is applied and its count stays 1; \<^verbatim>\<open>constructor\<close>, for which the inventory has
  no entry, is applied as well.
\<close>

theorem applyBoost_results_witness:
  "applyBoost thrower_game ''Honey'' (Some (TunnelPlace 0 0)) =
     Inr (Some ''no such boost'', thrower_game) \<and>
   applyBoost thrower_game ''BugSpray'' (Some (TunnelPlace 0 0)) =
     Inr (Some ''no such boost'', thrower_game) \<and>
   applyBoost tiny_game ''IcyLeaf'' (Some (TunnelPlace 0 0)) =
     Inr (Some ''no Ant at location'', tiny_game) \<and>
   (\<exists>s'. applyBoost thrower_game ''IcyLeaf'' (Some (TunnelPlace 0 0)) = Inr (None, s') \<and>
         a_boost (heap_ants s' 0) = Some ''IcyLeaf'' \<and> boosts s' ''IcyLeaf'' = Some (Count 1)) \<and>
   boosts thrower_game ''constructor'' = None \<and>
   (\<exists>s'. applyBoost thrower_game ''constructor'' (Some (TunnelPlace 0 0)) = Inr (None, s') \<and>
         a_boost (heap_ants s' 0) = Some ''constructor'' \<and> boosts s' ''constructor'' = None)"
proof -
  let ?p = "TunnelPlace 0 0"
  have n: "''Honey'' \<notin> set object_prototype_names"
    "''constructor'' \<in> set object_prototype_names"
    by (simp_all add: object_prototype_names_def)
  have b: "boosts thrower_game ''constructor'' = None"
    by (simp add: thrower_game_def tiny_game_eq command_defs)
  have t: "p_guard (heap_places tiny_game ?p) = None \<and> p_ant (heap_places tiny_game ?p) = None"
    "boosts tiny_game ''IcyLeaf'' = Some (Count 1)"
    by (simp_all add: tiny_game_eq empty_place_def)
  from applyBoost_results[of thrower_game "''Honey''" ?p] n(1)
  have c1: "applyBoost thrower_game ''Honey'' (Some ?p) = Inr (Some ''no such boost'', thrower_game)"
    by (simp add: thrower_game_fields)
  from applyBoost_results[of thrower_game "''BugSpray''" ?p]
  have c2: "applyBoost thrower_game ''BugSpray'' (Some ?p) =
      Inr (Some ''no such boost'', thrower_game)"
    by (simp add: thrower_game_fields)
  from applyBoost_results[of tiny_game "''IcyLeaf''" ?p] t
  have c3: "applyBoost tiny_game ''IcyLeaf'' (Some ?p) = Inr (Some ''no Ant at location'', tiny_game)"
    by simp
  from applyBoost_results[of thrower_game "''IcyLeaf''" ?p 0]
  have c4: "\<exists>s'. applyBoost thrower_game ''IcyLeaf'' (Some ?p) = Inr (None, s') \<and>
      a_boost (heap_ants s' 0) = Some ''IcyLeaf'' \<and> boosts s' ''IcyLeaf'' = Some (Count 1)"
    by (auto simp: thrower_game_fields)
  from applyBoost_results[of thrower_game "''constructor''" ?p 0] n(2) b
  have c5: "\<exists>s'. applyBoost thrower_game ''constructor'' (Some ?p) = Inr (None, s') \<and>
      a_boost (heap_ants s' 0) = Some ''constructor'' \<and> boosts s' ''constructor'' = None"
    by (auto simp: thrower_game_fields)
  from c1 c2 c3 c4 b c5 show ?thesis by blast
qed

text \<open>
  The same through the command: \<^verbatim>\<open>boostAnt('constructor', '0,0')\<close> returns \<^verbatim>\<open>undefined\<close> and
  the Thrower carries the boost \<^verbatim>\<open>constructor\<close>, where an unknown name such as \<^verbatim>\<open>Honey\<close> is
  answered by \<^verbatim>\<open>'no such boost'\<close>.
\<close>

lemma boostAnt_inherited_name:
  "fst (AntGame_boostAnt thrower_game ''constructor'' ''0,0'') = None"
  "a_boost (heap_ants (snd (AntGame_boostAnt thrower_game ''constructor'' ''0,0'')) 0)
     = Some ''constructor''"
  "fst (AntGame_boostAnt thrower_game ''Honey'' ''0,0'') = Some ''no such boost''"
  by (simp_all add: thrower_game_def tiny_game_eq command_defs)

section \<open>The closest bee\<close>

lemma upt5: "[0..<5] = [0, 1, 2, 3, 4]"
  by (simp add: upt_rec)

lemma five_game_eq:
  "five_game =
    \<lparr>heap_places = (\<lambda>p. empty_place)
        (QueenPlace := empty_place\<lparr>p_entrance := Some (TunnelPlace 0 0)\<rparr>,
         TunnelPlace 0 0 := empty_place\<lparr>p_exit := Some QueenPlace, p_entrance := Some (TunnelPlace 0 1)\<rparr>,
         TunnelPlace 0 1 := empty_place\<lparr>p_exit := Some (TunnelPlace 0 0), p_entrance := Some (TunnelPlace 0 2)\<rparr>,
         TunnelPlace 0 2 := empty_place\<lparr>p_exit := Some (TunnelPlace 0 1), p_entrance := Some (TunnelPlace 0 3)\<rparr>,
         TunnelPlace 0 3 := empty_place\<lparr>p_exit := Some (TunnelPlace 0 2), p_entrance := Some (TunnelPlace 0 4)\<rparr>,
         TunnelPlace 0 4 := empty_place\<lparr>p_exit := Some (TunnelPlace 0 3)\<rparr>),
     heap_ants = (\<lambda>a. default_ant), heap_bees = (\<lambda>b. default_bee),
     next_ant = 0, next_bee = 0, food = 10,
     places = [[TunnelPlace 0 0, TunnelPlace 0 1, TunnelPlace 0 2, TunnelPlace 0 3, TunnelPlace 0 4]],
     beeEntrances = [TunnelPlace 0 4],
     boosts = [''FlyingLeaf'' \<mapsto> Count 1, ''StickyLeaf'' \<mapsto> Count 1,
               ''IcyLeaf'' \<mapsto> Count 1, ''BugSpray'' \<mapsto> Count 0],
     waves = Map.empty, beeArmor = 2, beeDamage = 1, turn = 0,
     rolls = (\<lambda>n. 0), roll_ix = 0\<rparr>"
  apply (simp add: five_game_def new_AntGame_def colony_tunnel_def colony_step_def Let_def
      empty_place_def upt5)
  apply (rule ext)
  apply simp
  done

lemma loop_spec:
  "0 \<le> d \<Longrightarrow>
   getClosestBee_loop s po d mx mn =
     (case filter (\<lambda>q. p_bees (heap_places s q) \<noteq> [])
             (drop (nat (mn - d)) (chain s po (nat (mx + 1 - d)))) of
        [] \<Rightarrow> None
      | q # _ \<Rightarrow> Some (hd (p_bees (heap_places s q))))"
proof (induction s po d mx mn rule: getClosestBee_loop.induct)
  case (1 s p d mx mn)
  show ?case
  proof (cases p)
    case None
    then show ?thesis by (subst getClosestBee_loop.simps) simp
  next
    case (Some q)
    show ?thesis
    proof (cases "d \<le> mx")
      case False
      then have "nat (mx + 1 - d) = 0" by simp
      with Some False show ?thesis by (subst getClosestBee_loop.simps) simp
    next
      case True
      then have n: "nat (mx + 1 - d) = Suc (nat (mx - d))" by simp
      have n': "nat (mx + 1 - (d + 1)) = nat (mx - d)" by simp
      show ?thesis
      proof (cases "mn \<le> d")
        case inrange: True
        then have z: "nat (mn - d) = 0" "nat (mn - (d + 1)) = 0" by simp_all
        show ?thesis
        proof (cases "p_bees (heap_places s q) = []")
          case True
          with 1 Some \<open>d \<le> mx\<close> inrange show ?thesis
            by (subst getClosestBee_loop.simps) (simp add: n n' z)
        next
          case False
          with Some \<open>d \<le> mx\<close> inrange show ?thesis
            by (subst getClosestBee_loop.simps) (simp add: n z)
        qed
      next
        case False
        then have z: "nat (mn - d) = Suc (nat (mn - (d + 1)))" by simp
        from False 1 Some \<open>d \<le> mx\<close> show ?thesis
          by (subst getClosestBee_loop.simps) (simp add: n n' z)
      qed
    qed
  qed
qed

lemma getClosestBee_spec: "getClosestBee s p mx mn = closest_attacker s p mx mn"
  by (simp add: getClosestBee_def closest_attacker_def loop_spec)

lemma chain_take: "n \<le> m \<Longrightarrow> chain s po n = take n (chain s po m)"
proof (induction s po m arbitrary: n rule: chain.induct)
  case (3 s p m)
  show ?case
  proof (cases n)
    case 0
    then show ?thesis by simp
  next
    case (Suc k)
    with 3(2) have "k \<le> m" by simp
    from 3(1)[OF this] Suc show ?thesis by simp
  qed
qed simp_all

lemmas turn_defs = exec_def takeTurn_def antsAct_def antsAct_calls_def getAllAnts_def
  List.map_filter_def getAnt_def beesAct_def getAllBees_def getBees_def placesAct_def place_act_def
  invade_def invade_body_def random_def addBee_def removeBee_def addWave_def new_Bee_def
  upd_bee_def upd_place_def upd_ant_def Let_def empty_place_def

lemma invaded_game_fields:
  "p_bees (heap_places invaded_game (TunnelPlace 0 0)) = []"
  "p_bees (heap_places invaded_game (TunnelPlace 0 (Suc 0))) = []"
  "p_bees (heap_places invaded_game (TunnelPlace 0 2)) = []"
  "p_bees (heap_places invaded_game (TunnelPlace 0 3)) = []"
  "p_bees (heap_places invaded_game (TunnelPlace 0 4)) = [0]"
  "p_entrance (heap_places invaded_game (TunnelPlace 0 0)) = Some (TunnelPlace 0 1)"
  "p_entrance (heap_places invaded_game (TunnelPlace 0 (Suc 0))) = Some (TunnelPlace 0 2)"
  "p_entrance (heap_places invaded_game (TunnelPlace 0 2)) = Some (TunnelPlace 0 3)"
  "p_entrance (heap_places invaded_game (TunnelPlace 0 3)) = Some (TunnelPlace 0 4)"
  "p_entrance (heap_places invaded_game (TunnelPlace 0 4)) = None"
  "turn invaded_game = 1"
  by (simp_all add: invaded_game_def five_game_eq turn_defs)

text \<open>
  C9.  \<^verbatim>\<open>getClosestBee\<close> computes \<open>closest_attacker\<close>: it visits the places at distances
  0, 1, 2, \<dots> along the entrance links and returns the first bee of the first visited
  place whose distance lies between \<open>min_distance\<close> and \<open>max_distance\<close> and which holds a bee,
  and nothing when the links end or the distance passes \<open>max_distance\<close> first.  With
  \<open>max_distance = 3\<close> and no bee nearer, a bee at distance 3 is returned and a bee at
  distance 4 is not.
\<close>

theorem getClosestBee_walk:
  "getClosestBee s p max_distance min_distance = closest_attacker s p max_distance min_distance \<and>
   (chain s (Some p) 4 = [c0, c1, c2, c3] \<and>
    p_bees (heap_places s c0) = [] \<and> p_bees (heap_places s c1) = [] \<and>
    p_bees (heap_places s c2) = [] \<and> p_bees (heap_places s c3) = b # bs \<longrightarrow>
      getClosestBee s p 3 0 = Some b) \<and>
   (chain s (Some p) 5 = [c0, c1, c2, c3, c4] \<and>
    p_bees (heap_places s c0) = [] \<and> p_bees (heap_places s c1) = [] \<and>
    p_bees (heap_places s c2) = [] \<and> p_bees (heap_places s c3) = [] \<and>
    p_bees (heap_places s c4) = b # bs \<longrightarrow>
      getClosestBee s p 3 0 = None)"
proof (intro conjI impI)
  show "getClosestBee s p max_distance min_distance = closest_attacker s p max_distance min_distance"
    by (rule getClosestBee_spec)
next
  assume "chain s (Some p) 4 = [c0, c1, c2, c3] \<and>
    p_bees (heap_places s c0) = [] \<and> p_bees (heap_places s c1) = [] \<and>
    p_bees (heap_places s c2) = [] \<and> p_bees (heap_places s c3) = b # bs"
  then show "getClosestBee s p 3 0 = Some b"
    by (simp add: getClosestBee_spec closest_attacker_def)
next
  assume a: "chain s (Some p) 5 = [c0, c1, c2, c3, c4] \<and>
    p_bees (heap_places s c0) = [] \<and> p_bees (heap_places s c1) = [] \<and>
    p_bees (heap_places s c2) = [] \<and> p_bees (heap_places s c3) = [] \<and>
    p_bees (heap_places s c4) = b # bs"
  have "chain s (Some p) 4 = take 4 (chain s (Some p) 5)"
    by (rule chain_take) simp
  with a have "chain s (Some p) 4 = [c0, c1, c2, c3]" by simp
  with a show "getClosestBee s p 3 0 = None"
    by (simp add: getClosestBee_spec closest_attacker_def)
qed

lemma chain_numeral: "chain s (Some p) (numeral k) = p # chain s (p_entrance (heap_places s p)) (pred_numeral k)"
  by (simp add: numeral_eq_Suc)

theorem getClosestBee_walk_witness:
  "getClosestBee invaded_game (TunnelPlace 0 1) 3 0 = Some 0 \<and>
   getClosestBee invaded_game (TunnelPlace 0 0) 3 0 = None \<and>
   getClosestBee invaded_game (TunnelPlace 0 0) 4 0 = Some 0"
proof -
  let ?s = invaded_game
  have c4: "chain ?s (Some (TunnelPlace 0 1)) 4 =
      [TunnelPlace 0 1, TunnelPlace 0 2, TunnelPlace 0 3, TunnelPlace 0 4]"
    by (simp add: chain_numeral invaded_game_fields)
  have c5: "chain ?s (Some (TunnelPlace 0 0)) 5 =
      [TunnelPlace 0 0, TunnelPlace 0 1, TunnelPlace 0 2, TunnelPlace 0 3, TunnelPlace 0 4]"
    by (simp add: chain_numeral invaded_game_fields)
  from getClosestBee_walk[of ?s "TunnelPlace 0 1" 3 0 "TunnelPlace 0 1" "TunnelPlace 0 2"
      "TunnelPlace 0 3" "TunnelPlace 0 4" 0 "[]", THEN conjunct2, THEN conjunct1] c4
  have r1: "getClosestBee ?s (TunnelPlace 0 1) 3 0 = Some 0"
    by (simp add: invaded_game_fields)
  from getClosestBee_walk[of ?s "TunnelPlace 0 0" 3 0 "TunnelPlace 0 0"
      "TunnelPlace 0 1" "TunnelPlace 0 2" "TunnelPlace 0 3" 0 "[]" "TunnelPlace 0 4",
      THEN conjunct2, THEN conjunct2] c5
  have r2: "getClosestBee ?s (TunnelPlace 0 0) 3 0 = None"
    by (simp add: invaded_game_fields)
  from getClosestBee_walk[of ?s "TunnelPlace 0 0" 4 0, THEN conjunct1] c5
  have r3: "getClosestBee ?s (TunnelPlace 0 0) 4 0 = Some 0"
    by (simp add: closest_attacker_def invaded_game_fields)
  from r1 r2 r3 show ?thesis by blast
qed

section \<open>Throwers, Scubas and Eaters\<close>

lemma invaded_game_more:
  "places invaded_game =
     [[TunnelPlace 0 0, TunnelPlace 0 (Suc 0), TunnelPlace 0 2, TunnelPlace 0 3, TunnelPlace 0 4]]"
  "food invaded_game = 10"
  "next_ant invaded_game = 0"
  "boosts invaded_game ''IcyLeaf'' = Some (Count 1)"
  "p_ant (heap_places invaded_game p) = None"
  "p_guard (heap_places invaded_game p) = None"
  "b_place (heap_bees invaded_game 0) = Some (TunnelPlace 0 4)"
  "b_armor (heap_bees invaded_game 0) = 2"
  "p_bees (heap_places invaded_game (StomachPlace a)) = []"
  by (simp_all add: invaded_game_def five_game_eq turn_defs)

lemma icy_far_fields:
  "a_kind (heap_ants icy_far_game 0) = Thrower"
  "a_boost (heap_ants icy_far_game 0) = Some ''IcyLeaf''"
  "a_place (heap_ants icy_far_game 0) = Some (TunnelPlace 0 0)"
  "p_bees (heap_places icy_far_game p) = p_bees (heap_places invaded_game p)"
  "p_entrance (heap_places icy_far_game p) = p_entrance (heap_places invaded_game p)"
  by (simp_all add: icy_far_game_def invaded_game_more command_defs)

lemma icy_near_fields:
  "a_kind (heap_ants icy_near_game 0) = Scuba"
  "a_boost (heap_ants icy_near_game 0) = Some ''IcyLeaf''"
  "a_place (heap_ants icy_near_game 0) = Some (TunnelPlace 0 (Suc 0))"
  "p_bees (heap_places icy_near_game p) = p_bees (heap_places invaded_game p)"
  "p_entrance (heap_places icy_near_game p) = p_entrance (heap_places invaded_game p)"
  "b_place (heap_bees icy_near_game 0) = Some (TunnelPlace 0 4)"
  by (simp_all add: icy_near_game_def invaded_game_more command_defs)

lemma eater_game_fields:
  "a_kind (heap_ants eater_game 0) = Eater"
  "a_turnsEating (heap_ants eater_game 0) = 0"
  "a_place (heap_ants eater_game 0) = Some (TunnelPlace 0 4)"
  "p_bees (heap_places eater_game (TunnelPlace 0 4)) = [0]"
  "p_bees (heap_places eater_game (StomachPlace 0)) = []"
  by (simp_all add: eater_game_def invaded_game_more invaded_game_fields command_defs)


lemma chain_0 [simp]: "chain s po 0 = []"
  by (cases po) simp_all

lemma getClosestBee_0:
  "getClosestBee s p 0 0 = (case p_bees (heap_places s p) of [] \<Rightarrow> None | b # bs \<Rightarrow> Some b)"
  by (simp add: getClosestBee_spec closest_attacker_def split: list.splits)

lemma reduceArmor_bee_cases:
  "reduceArmor s (BeeRef t) amount =
     (if b_armor (heap_bees s t) - amount \<le> 0 then
        (case b_place (heap_bees s t) of
           None \<Rightarrow> Inl TypeError
         | Some q \<Rightarrow> Inr (True, removeBee (upd_bee t (\<lambda>x. x\<lparr>b_armor := b_armor x - amount\<rparr>) s) q t))
      else Inr (False, upd_bee t (\<lambda>x. x\<lparr>b_armor := b_armor x - amount\<rparr>) s))"
  by (simp add: reduceArmor_def subArmor_def getArmor_def getPlace_def removeInsect_def upd_bee_def
      Let_def split: option.splits)

lemma removeBee_ants [simp]: "heap_ants (removeBee s p b) = heap_ants s"
  by (simp add: removeBee_def upd_bee_def upd_place_def)

lemma addBee_ants [simp]: "heap_ants (addBee s p b) = heap_ants s"
  by (simp add: addBee_def upd_bee_def upd_place_def)

lemma upd_bee_ants [simp]: "heap_ants (upd_bee b f s) = heap_ants s"
  by (simp add: upd_bee_def)

lemma setStatus_ants [simp]: "heap_ants (setStatus s b st) = heap_ants s"
  by (simp add: setStatus_def)

lemma upd_ant_ants [simp]: "heap_ants (upd_ant a f s) = (heap_ants s)(a := f (heap_ants s a))"
  by (simp add: upd_ant_def)

lemma reduceArmor_bee_ants:
  "reduceArmor s (BeeRef t) amount = Inr (d, s') \<Longrightarrow> heap_ants s' = heap_ants s"
  by (auto simp: reduceArmor_bee_cases split: if_splits option.splits)

lemma reduceArmor_bee_returns:
  "b_place (heap_bees s t) \<noteq> None \<or> amount < b_armor (heap_bees s t) \<Longrightarrow>
   \<exists>d s'. reduceArmor s (BeeRef t) amount = Inr (d, s')"
  by (auto simp: reduceArmor_bee_cases split: if_splits option.splits)

lemma thrower_act_no_target:
  "a_boost (heap_ants s ant) \<noteq> Some ''BugSpray'' \<Longrightarrow> a_place (heap_ants s ant) = Some p \<Longrightarrow>
   getClosestBee s p (if a_boost (heap_ants s ant) = Some ''FlyingLeaf'' then 5 else 3) 0 = None \<Longrightarrow>
   thrower_act fuel s ant = Inr s"
  by (auto simp: thrower_act_def split: if_splits)

lemma thrower_act_target:
  assumes "a_boost (heap_ants s ant) \<noteq> Some ''BugSpray''" "a_place (heap_ants s ant) = Some p"
    and "getClosestBee s p (if a_boost (heap_ants s ant) = Some ''FlyingLeaf'' then 5 else 3) 0
         = Some target"
    and "b_place (heap_bees s target) \<noteq> None \<or> 1 < b_armor (heap_bees s target)"
  shows "\<exists>s'. thrower_act fuel s ant = Inr s' \<and> a_boost (heap_ants s' ant) = None"
proof -
  from reduceArmor_bee_returns[OF assms(4)] obtain d s1 where
    r: "reduceArmor s (BeeRef target) 1 = Inr (d, s1)" by blast
  with assms(1-3) show ?thesis
    by (auto simp: thrower_act_def Let_def split: if_splits)
qed

lemma thrower_act_throws:
  assumes "a_boost (heap_ants s ant) \<noteq> Some ''BugSpray''" "a_place (heap_ants s ant) = Some p"
    and "getClosestBee s p (if a_boost (heap_ants s ant) = Some ''FlyingLeaf'' then 5 else 3) 0
         = Some target"
    and "b_place (heap_bees s target) = None" "b_armor (heap_bees s target) \<le> 1"
  shows "thrower_act fuel s ant = Inl TypeError"
  using assms by (auto simp: thrower_act_def reduceArmor_bee_cases split: if_splits)

text \<open>
  C4.  A Thrower or a Scuba that is on the board and whose boost is not BugSpray searches
  for the closest bee within range 5 (FlyingLeaf) or 3.  When no bee is found its act
  returns the state unchanged, so the boost stays for later turns.  When a bee is found
  the act ends with the boost cleared; the one exception is a bee that the hit kills and
  that has no place to be removed from, where \<^verbatim>\<open>reduceArmor\<close> throws before the boost is
  touched.
\<close>

theorem thrower_boost_cleared:
  assumes "a_kind (heap_ants s ant) = Thrower \<or> a_kind (heap_ants s ant) = Scuba"
    and "a_boost (heap_ants s ant) \<noteq> Some ''BugSpray''"
    and "a_place (heap_ants s ant) = Some p"
  shows
    "(getClosestBee s p (if a_boost (heap_ants s ant) = Some ''FlyingLeaf'' then 5 else 3) 0 = None
        \<longrightarrow> ant_act fuel s ant = Inr s) \<and>
     (\<forall>target.
        getClosestBee s p (if a_boost (heap_ants s ant) = Some ''FlyingLeaf'' then 5 else 3) 0
          = Some target \<and>
        (b_place (heap_bees s target) \<noteq> None \<or> 1 < b_armor (heap_bees s target))
        \<longrightarrow> (\<exists>s'. ant_act fuel s ant = Inr s' \<and> a_boost (heap_ants s' ant) = None)) \<and>
     (\<forall>target.
        getClosestBee s p (if a_boost (heap_ants s ant) = Some ''FlyingLeaf'' then 5 else 3) 0
          = Some target \<and>
        b_place (heap_bees s target) = None \<and> b_armor (heap_bees s target) \<le> 1
        \<longrightarrow> ant_act fuel s ant = Inl TypeError)"
proof -
  from assms(1) have act: "ant_act fuel s ant = thrower_act fuel s ant"
    by (auto simp: ant_act_def scuba_act_def)
  show ?thesis
    unfolding act
    using thrower_act_no_target[OF assms(2,3)] thrower_act_target[OF assms(2,3)]
      thrower_act_throws[OF assms(2,3)]
    by blast
qed

theorem thrower_boost_cleared_witness:
  "ant_act 0 icy_far_game 0 = Inr icy_far_game \<and>
   a_boost (heap_ants icy_far_game 0) = Some ''IcyLeaf'' \<and>
   (\<exists>s'. ant_act 0 icy_near_game 0 = Inr s' \<and> a_boost (heap_ants s' 0) = None)"
proof -
  have far: "getClosestBee icy_far_game (TunnelPlace 0 0) 3 0 = None"
    by (simp add: getClosestBee_spec closest_attacker_def chain_numeral icy_far_fields
        invaded_game_fields)
  have near: "getClosestBee icy_near_game (TunnelPlace 0 (Suc 0)) 3 0 = Some 0"
    by (simp add: getClosestBee_spec closest_attacker_def chain_numeral icy_near_fields
        invaded_game_fields)
  have h1: "a_kind (heap_ants icy_far_game 0) = Thrower \<or> a_kind (heap_ants icy_far_game 0) = Scuba"
    "a_boost (heap_ants icy_far_game 0) \<noteq> Some ''BugSpray''"
    by (simp_all add: icy_far_fields)
  have h2: "a_kind (heap_ants icy_near_game 0) = Thrower \<or> a_kind (heap_ants icy_near_game 0) = Scuba"
    "a_boost (heap_ants icy_near_game 0) \<noteq> Some ''BugSpray''"
    by (simp_all add: icy_near_fields)
  from thrower_boost_cleared[OF h1 icy_far_fields(3), of 0] far
  have r1: "ant_act 0 icy_far_game 0 = Inr icy_far_game"
    by (simp add: icy_far_fields)
  from thrower_boost_cleared[OF h2 icy_near_fields(3), of 0] near
  have r2: "\<exists>s'. ant_act 0 icy_near_game 0 = Inr s' \<and> a_boost (heap_ants s' 0) = None"
    by (simp add: icy_near_fields)
  from r1 r2 icy_far_fields(2) show ?thesis by blast
qed


lemma eater_act_swallow:
  assumes "a_turnsEating (heap_ants s ant) = 0" "a_place (heap_ants s ant) = Some p"
    "p \<noteq> StomachPlace ant" "p_bees (heap_places s p) = b # bs"
  shows "\<exists>s1. eater_act s ant = Inr s1 \<and> a_turnsEating (heap_ants s1 ant) = 1 \<and>
      a_kind (heap_ants s1 ant) = a_kind (heap_ants s ant) \<and>
      p_bees (heap_places s1 (StomachPlace ant)) = p_bees (heap_places s (StomachPlace ant)) @ [b] \<and>
      p_bees (heap_places s1 p) = bs \<and>
      b_place (heap_bees s1 b) = Some (StomachPlace ant)"
  using assms
  by (simp add: eater_act_def getClosestBee_0 addBee_def removeBee_def upd_bee_def upd_place_def
      upd_ant_def)

lemma eater_act_digest:
  assumes "1 \<le> a_turnsEating (heap_ants s ant)" "a_turnsEating (heap_ants s ant) \<le> 3"
  shows "eater_act s ant = Inr (upd_ant ant (\<lambda>a. a\<lparr>a_turnsEating := a_turnsEating a + 1\<rparr>) s)"
  using assms by (simp add: eater_act_def)

lemma eater_act_release:
  assumes "3 < a_turnsEating (heap_ants s ant)" "p_bees (heap_places s (StomachPlace ant)) = b # bs"
  shows "\<exists>s1. eater_act s ant = Inr s1 \<and> a_turnsEating (heap_ants s1 ant) = 0 \<and>
      a_kind (heap_ants s1 ant) = a_kind (heap_ants s ant) \<and>
      p_bees (heap_places s1 (StomachPlace ant)) = bs \<and> b_place (heap_bees s1 b) = None"
  using assms
  by (simp add: eater_act_def getBees_def removeBee_def upd_bee_def upd_place_def upd_ant_def)

text \<open>
  C5.  An Eater with an empty stomach and a bee in its place swallows on its act: the
  counter goes from 0 to 1 and the bee is in the stomach.  With no damage in between, the
  next three acts raise the counter to 2, 3 and 4 and leave the bee in the stomach, and the
  fourth act after the swallow, the one that finds the counter above 3, removes the bee
  from the stomach (it is then at no place) and resets the counter to 0.
\<close>

theorem eater_digestion:
  assumes "a_kind (heap_ants s ant) = Eater"
    and "a_turnsEating (heap_ants s ant) = 0"
    and "a_place (heap_ants s ant) = Some p" and "p \<noteq> StomachPlace ant"
    and "p_bees (heap_places s p) = b # bs"
    and "p_bees (heap_places s (StomachPlace ant)) = []"
  shows "\<exists>s1 s2 s3 s4 s5.
      ant_act fuel s ant = Inr s1 \<and>
        a_turnsEating (heap_ants s1 ant) = 1 \<and> p_bees (heap_places s1 (StomachPlace ant)) = [b] \<and>
      ant_act fuel s1 ant = Inr s2 \<and>
        a_turnsEating (heap_ants s2 ant) = 2 \<and> p_bees (heap_places s2 (StomachPlace ant)) = [b] \<and>
      ant_act fuel s2 ant = Inr s3 \<and>
        a_turnsEating (heap_ants s3 ant) = 3 \<and> p_bees (heap_places s3 (StomachPlace ant)) = [b] \<and>
      ant_act fuel s3 ant = Inr s4 \<and>
        a_turnsEating (heap_ants s4 ant) = 4 \<and> p_bees (heap_places s4 (StomachPlace ant)) = [b] \<and>
      ant_act fuel s4 ant = Inr s5 \<and>
        a_turnsEating (heap_ants s5 ant) = 0 \<and> p_bees (heap_places s5 (StomachPlace ant)) = [] \<and>
        b_place (heap_bees s5 b) = None"
proof -
  have act: "\<And>s'. a_kind (heap_ants s' ant) = Eater \<Longrightarrow> ant_act fuel s' ant = eater_act s' ant"
    by (simp add: ant_act_def)
  from eater_act_swallow[OF assms(2-5)] assms(1,6) obtain s1 where
    s1: "eater_act s ant = Inr s1" "a_turnsEating (heap_ants s1 ant) = 1"
      "a_kind (heap_ants s1 ant) = Eater" "p_bees (heap_places s1 (StomachPlace ant)) = [b]"
    by auto
  define s2 where "s2 = upd_ant ant (\<lambda>a. a\<lparr>a_turnsEating := a_turnsEating a + 1\<rparr>) s1"
  define s3 where "s3 = upd_ant ant (\<lambda>a. a\<lparr>a_turnsEating := a_turnsEating a + 1\<rparr>) s2"
  define s4 where "s4 = upd_ant ant (\<lambda>a. a\<lparr>a_turnsEating := a_turnsEating a + 1\<rparr>) s3"
  have s2: "eater_act s1 ant = Inr s2" "a_turnsEating (heap_ants s2 ant) = 2"
      "a_kind (heap_ants s2 ant) = Eater" "p_bees (heap_places s2 (StomachPlace ant)) = [b]"
    using s1 by (simp_all add: s2_def eater_act_digest upd_ant_def)
  have s3: "eater_act s2 ant = Inr s3" "a_turnsEating (heap_ants s3 ant) = 3"
      "a_kind (heap_ants s3 ant) = Eater" "p_bees (heap_places s3 (StomachPlace ant)) = [b]"
    using s2 by (simp_all add: s3_def eater_act_digest upd_ant_def)
  have s4: "eater_act s3 ant = Inr s4" "a_turnsEating (heap_ants s4 ant) = 4"
      "a_kind (heap_ants s4 ant) = Eater" "p_bees (heap_places s4 (StomachPlace ant)) = [b]"
    using s3 by (simp_all add: s4_def eater_act_digest upd_ant_def)
  from eater_act_release[of s4 ant b "[]"] s4 obtain s5 where
    s5: "eater_act s4 ant = Inr s5" "a_turnsEating (heap_ants s5 ant) = 0"
      "p_bees (heap_places s5 (StomachPlace ant)) = []" "b_place (heap_bees s5 b) = None"
    by auto
  from assms(1) s1 s2 s3 s4 s5 show ?thesis
    by (simp add: act)
qed

theorem eater_digestion_witness:
  "\<exists>s1 s2 s3 s4 s5.
      ant_act 0 eater_game 0 = Inr s1 \<and> isFull s1 0 \<and>
      ant_act 0 s1 0 = Inr s2 \<and> ant_act 0 s2 0 = Inr s3 \<and> ant_act 0 s3 0 = Inr s4 \<and>
      isFull s4 0 \<and> a_turnsEating (heap_ants s4 0) = 4 \<and>
      ant_act 0 s4 0 = Inr s5 \<and> \<not> isFull s5 0 \<and> a_turnsEating (heap_ants s5 0) = 0"
proof -
  have "TunnelPlace 0 4 \<noteq> StomachPlace 0" by simp
  from eater_digestion[OF eater_game_fields(1,2,3) this eater_game_fields(4,5), of 0]
  show ?thesis
    by (auto simp: isFull_def getBees_def)
qed

section \<open>Commands with a bad coordinate, and a guarded ant in the sweep\<close>

lemma poor_game_eq:
  "poor_game =
    \<lparr>heap_places = (\<lambda>p. empty_place)
        (TunnelPlace 0 0 := empty_place\<lparr>p_exit := Some QueenPlace\<rparr>,
         QueenPlace := empty_place\<lparr>p_entrance := Some (TunnelPlace 0 0)\<rparr>),
     heap_ants = (\<lambda>a. default_ant), heap_bees = (\<lambda>b. default_bee),
     next_ant = 0, next_bee = 0, food = 3, places = [[TunnelPlace 0 0]],
     beeEntrances = [TunnelPlace 0 0],
     boosts = [''FlyingLeaf'' \<mapsto> Count 1, ''StickyLeaf'' \<mapsto> Count 1,
               ''IcyLeaf'' \<mapsto> Count 1, ''BugSpray'' \<mapsto> Count 0],
     waves = Map.empty, beeArmor = 2, beeDamage = 1, turn = 0,
     rolls = (\<lambda>n. 0), roll_ix = 0\<rparr>"
  by (simp add: poor_game_def new_AntGame_def colony_tunnel_def colony_step_def Let_def
      empty_place_def)

text \<open>
  C7.  The commands read \<^verbatim>\<open>places[row][col]\<close> and rely on a TypeError to detect a bad
  coordinate.  A row outside the board throws at once, but a column outside its row only
  gives \<^verbatim>\<open>undefined\<close>, which throws when a method is called on it.  \<^verbatim>\<open>deployAnt\<close> tests the
  food first and \<^verbatim>\<open>applyBoost\<close> the inventory first: on the colony with 3 food, deploying a
  Thrower at \<^verbatim>\<open>0,7\<close> returns \<^verbatim>\<open>'not enough food'\<close> and boosting with BugSpray (count 0) at
  \<^verbatim>\<open>0,7\<close> returns \<^verbatim>\<open>'no such boost'\<close>, where the documentation of both commands promises
  \<^verbatim>\<open>'illegal location'\<close>.  With enough food, with a boost in stock, for \<^verbatim>\<open>removeAnt\<close> and for a
  row index outside the board the answer is \<^verbatim>\<open>'illegal location'\<close>; an unknown type name is
  reported first.
\<close>

theorem bad_column_not_reported:
  "place_at poor_game ''0,7'' = Inr None \<and>
   fst (AntGame_deployAnt poor_game ''Thrower'' ''0,7'') = Some ''not enough food'' \<and>
   fst (AntGame_boostAnt poor_game ''BugSpray'' ''0,7'') = Some ''no such boost'' \<and>
   fst (AntGame_deployAnt tiny_game ''Thrower'' ''0,7'') = Some ''illegal location'' \<and>
   fst (AntGame_boostAnt poor_game ''IcyLeaf'' ''0,7'') = Some ''illegal location'' \<and>
   fst (AntGame_removeAnt poor_game ''0,7'') = Some ''illegal location'' \<and>
   fst (AntGame_deployAnt poor_game ''Thrower'' ''7,0'') = Some ''illegal location'' \<and>
   fst (AntGame_deployAnt poor_game ''Wasp'' ''0,7'') = Some ''unknown ant type''"
  by (simp add: poor_game_eq tiny_game_eq command_defs)

text \<open>
  A row key that names an inherited property of the array behaves like a bad column: the
  first read gives a function, the second read does not throw, and the food test answers.
  Only the keys \<^verbatim>\<open>caller\<close> and \<^verbatim>\<open>arguments\<close> make the second read throw.
\<close>

lemma inherited_row_key:
  "place_at poor_game ''constructor,0'' = Inr None"
  "fst (AntGame_deployAnt poor_game ''Thrower'' ''constructor,0'') = Some ''not enough food''"
  "fst (AntGame_removeAnt poor_game ''constructor,0'') = Some ''illegal location''"
  "place_at poor_game ''push,caller'' = Inl TypeError"
  "fst (AntGame_deployAnt poor_game ''Thrower'' ''push,caller'') = Some ''illegal location''"
  by (simp_all add: poor_game_eq command_defs)

lemma guarded_game_fields:
  "getAllAnts guarded_game = [1]"
  "p_ant (heap_places guarded_game (TunnelPlace 0 0)) = Some 0"
  "p_guard (heap_places guarded_game (TunnelPlace 0 0)) = Some (Suc 0)"
  "a_kind (heap_ants guarded_game 0) = Grower"
  "a_kind (heap_ants guarded_game (Suc 0)) = Guard"
  "a_place (heap_ants guarded_game (Suc 0)) = Some (TunnelPlace 0 0)"
  "food guarded_game = 5"
  "rolls guarded_game n = 0"
  by (simp_all add: guarded_game_def tiny_game_eq command_defs getAllAnts_def List.map_filter_def)

lemma guarded_game_sweep:
  "antsAct_calls fuel guarded_game = Inr ([0, 1], increaseFood (snd (random guarded_game)) 1)"
  by (simp add: antsAct_calls_def antsAct_body_def getGuarded_def getGuardedAnt_def ant_act_def
      guard_act_def grower_act_def guarded_game_fields random_def increaseFood_def)

text \<open>
  C1, refuted as stated.  In \<open>guarded_game\<close> the only section holds the Guard 1 and the
  Grower 0.  \<^verbatim>\<open>getAllAnts\<close> lists the Guard alone, because \<^verbatim>\<open>getAnt\<close> returns the guard of a place
  that has one.  The sweep executes the act of the Grower once, through the Guard, and the
  food goes from 5 to 6, not to 7.
\<close>

theorem guarded_acts_once:
  "getAnt guarded_game (TunnelPlace 0 0) = Some 1 \<and>
   a_kind (heap_ants guarded_game 1) = Guard \<and>
   getGuardedAnt guarded_game (TunnelPlace 0 0) = Some 0 \<and>
   a_kind (heap_ants guarded_game 0) = Grower \<and>
   getAllAnts guarded_game = [1] \<and>
   act_count 0 guarded_game 0 = Inr 1 \<and>
   food guarded_game = 5 \<and>
   map_sum id food (antsAct 0 guarded_game) = Inr 6"
  by (simp add: act_count_def antsAct_def guarded_game_sweep guarded_game_fields getAnt_def
      getGuardedAnt_def increaseFood_def random_def)

section \<open>What a turn and a command leave unchanged\<close>

lemma evolves_refl [simp]: "evolves P s s"
  by (simp add: evolves_def)

lemma evolves_trans:
  assumes 1: "evolves P s s1" and 2: "evolves Q s1 s2" and sub: "P \<subseteq> R" "Q \<subseteq> R"
  shows "evolves R s s2"
proof -
  have g: "p_guard (heap_places s2 p) = p_guard (heap_places s p) \<or>
      p \<in> R \<and> p_guard (heap_places s2 p) = None" for p
  proof -
    from 1 have a: "p_guard (heap_places s1 p) = p_guard (heap_places s p) \<or>
        p \<in> P \<and> p_guard (heap_places s1 p) = None"
      by (simp add: evolves_def)
    from 2 have b: "p_guard (heap_places s2 p) = p_guard (heap_places s1 p) \<or>
        p \<in> Q \<and> p_guard (heap_places s2 p) = None"
      by (simp add: evolves_def)
    from a b sub show ?thesis by auto
  qed
  have r: "p_ant (heap_places s2 p) = p_ant (heap_places s p) \<or>
      p \<in> R \<and> p_ant (heap_places s2 p) = None" for p
  proof -
    from 1 have a: "p_ant (heap_places s1 p) = p_ant (heap_places s p) \<or>
        p \<in> P \<and> p_ant (heap_places s1 p) = None"
      by (simp add: evolves_def)
    from 2 have b: "p_ant (heap_places s2 p) = p_ant (heap_places s1 p) \<or>
        p \<in> Q \<and> p_ant (heap_places s2 p) = None"
      by (simp add: evolves_def)
    from a b sub show ?thesis by auto
  qed
  from 1 2 have "places s2 = places s" "beeEntrances s2 = beeEntrances s"
    "next_ant s2 = next_ant s"
    "\<And>a. a_kind (heap_ants s2 a) = a_kind (heap_ants s a)"
    "\<And>a. a_place (heap_ants s2 a) = a_place (heap_ants s a)"
    "\<And>p. p_entrance (heap_places s2 p) = p_entrance (heap_places s p)"
    "\<And>p. p_exit (heap_places s2 p) = p_exit (heap_places s p)"
    "turn s \<le> turn s2" "next_bee s \<le> next_bee s2"
    by (simp_all add: evolves_def)
  with g r show ?thesis unfolding evolves_def by blast
qed

lemma evolves_trans_same: "evolves P s s1 \<Longrightarrow> evolves P s1 s2 \<Longrightarrow> evolves P s s2"
  by (rule evolves_trans[of P s s1 P s2 P]) simp_all

lemma evolves_mono: "evolves P s s' \<Longrightarrow> P \<subseteq> Q \<Longrightarrow> evolves Q s s'"
  by (rule evolves_trans[of P s s' "{}" s' Q]) simp_all

lemma evolves_place: "evolves P s s' \<Longrightarrow> a_place (heap_ants s' a) = a_place (heap_ants s a)"
  by (simp add: evolves_def)

lemma evolves_kind: "evolves P s s' \<Longrightarrow> a_kind (heap_ants s' a) = a_kind (heap_ants s a)"
  by (simp add: evolves_def)

lemma evolves_slots_ok: "evolves P s s' \<Longrightarrow> slots_ok s \<Longrightarrow> slots_ok s'"
  unfolding evolves_def slots_ok_def
  apply (intro conjI allI impI)
       apply (metis option.distinct(1))+
  done

lemma upd_bee_evolves [simp]: "evolves P s (upd_bee b f s)"
  by (simp add: evolves_def upd_bee_def)

lemma addBee_evolves [simp]: "evolves P s (addBee s p b)"
  by (simp add: evolves_def addBee_def upd_bee_def upd_place_def)

lemma removeBee_evolves [simp]: "evolves P s (removeBee s p b)"
  by (simp add: evolves_def removeBee_def upd_bee_def upd_place_def)

lemma setStatus_evolves [simp]: "evolves P s (setStatus s b st)"
  by (simp add: setStatus_def)

lemma removeAnt_evolves: "p \<in> P \<Longrightarrow> evolves P s (snd (removeAnt s p))"
  by (simp add: evolves_def removeAnt_def upd_place_def)

lemma subArmor_evolves [simp]: "evolves P s (subArmor s i amount)"
  by (cases i) (simp_all add: evolves_def subArmor_def upd_ant_def upd_bee_def)

lemma subArmor_ant_place [simp]:
  "a_place (heap_ants (subArmor s i amount) a) = a_place (heap_ants s a)"
  by (cases i) (simp_all add: subArmor_def upd_ant_def upd_bee_def)

lemma reduceArmor_bee_evolves:
  "reduceArmor s (BeeRef t) amount = Inr (d, s') \<Longrightarrow> evolves P s s'"
  by (auto simp: reduceArmor_bee_cases split: if_splits option.splits
      intro: evolves_trans_same[OF upd_bee_evolves removeBee_evolves])

lemma reduceArmor_ant_evolves:
  assumes "reduceArmor s (AntRef a) amount = Inr (d, s')"
    and "set_option (a_place (heap_ants s a)) \<subseteq> P"
  shows "evolves P s s'"
proof (cases "getArmor (subArmor s (AntRef a) amount) (AntRef a) \<le> 0")
  case True
  with assms(1) obtain p where p: "a_place (heap_ants s a) = Some p"
    and s': "s' = snd (removeAnt (subArmor s (AntRef a) amount) p)"
    by (auto simp: reduceArmor_def Let_def getPlace_def removeInsect_def split: option.splits)
  from p assms(2) have "p \<in> P" by simp
  then have "evolves P (subArmor s (AntRef a) amount) s'"
    unfolding s' by (rule removeAnt_evolves)
  with subArmor_evolves show ?thesis by (rule evolves_trans_same)
next
  case False
  with assms(1) have "s' = subArmor s (AntRef a) amount"
    by (auto simp: reduceArmor_def Let_def)
  then show ?thesis by simp
qed

lemma coughUp_evolves: "coughUp s a = Inr s' \<Longrightarrow> evolves P s s'"
  by (auto simp: coughUp_def Let_def split: list.splits option.splits
      intro: evolves_trans_same[OF removeBee_evolves addBee_evolves])

lemma upd_ant_evolves:
  "a_kind (f (heap_ants s a)) = a_kind (heap_ants s a) \<Longrightarrow>
   a_place (f (heap_ants s a)) = a_place (heap_ants s a) \<Longrightarrow> evolves P s (upd_ant a f s)"
  by (simp add: evolves_def upd_ant_def)

lemma eater_reduceArmor_evolves:
  assumes "eater_reduceArmor s a amount = Inr (d, s')"
    and "set_option (a_place (heap_ants s a)) \<subseteq> P"
  shows "evolves P s s'"
proof -
  let ?s1 = "subArmor s (AntRef a) amount"
  have e1: "evolves P s ?s1" by simp
  have pl: "set_option (a_place (heap_ants ?s1 a)) \<subseteq> P" using assms(2) by simp
  show ?thesis
  proof (cases "a_armor (heap_ants ?s1 a) > 0")
    case True
    show ?thesis
    proof (cases "a_turnsEating (heap_ants ?s1 a) = 1")
      case te: True
      with True assms(1) obtain s2 where c: "coughUp ?s1 a = Inr s2"
        and s': "s' = upd_ant a (\<lambda>x. x\<lparr>a_turnsEating := 3\<rparr>) s2"
        by (auto simp: eater_reduceArmor_def Let_def split: sum.splits)
      have "evolves P ?s1 s2" using c by (rule coughUp_evolves)
      moreover have "evolves P s2 s'" unfolding s' by (rule upd_ant_evolves) simp_all
      ultimately show ?thesis using e1 by (blast intro: evolves_trans_same)
    next
      case False
      with True assms(1) have "s' = ?s1"
        by (auto simp: eater_reduceArmor_def Let_def)
      then show ?thesis by simp
    qed
  next
    case False
    show ?thesis
    proof (cases "a_turnsEating (heap_ants ?s1 a) > 0 \<and> a_turnsEating (heap_ants ?s1 a) \<le> 2")
      case te: True
      with False assms(1) obtain s2 where c: "coughUp ?s1 a = Inr s2"
        and r: "reduceArmor s2 (AntRef a) amount = Inr (d, s')"
        by (auto simp: eater_reduceArmor_def Let_def split: sum.splits)
      have e2: "evolves P ?s1 s2" using c by (rule coughUp_evolves)
      then have "set_option (a_place (heap_ants s2 a)) \<subseteq> P"
        using pl by (simp add: evolves_place)
      from reduceArmor_ant_evolves[OF r this] e1 e2 show ?thesis
        by (blast intro: evolves_trans_same)
    next
      case te: False
      with False assms(1) have r: "reduceArmor ?s1 (AntRef a) amount = Inr (d, s')"
        by (auto simp: eater_reduceArmor_def Let_def)
      from reduceArmor_ant_evolves[OF r pl] e1 show ?thesis
        by (blast intro: evolves_trans_same)
    qed
  qed
qed

lemma ant_reduceArmor_evolves:
  "ant_reduceArmor s a amount = Inr (d, s') \<Longrightarrow>
   set_option (a_place (heap_ants s a)) \<subseteq> P \<Longrightarrow> evolves P s s'"
  by (auto simp: ant_reduceArmor_def split: if_splits
      intro: eater_reduceArmor_evolves reduceArmor_ant_evolves)

lemma bindE:
  assumes "(case m of Inl e \<Rightarrow> Inl e | Inr x \<Rightarrow> k x) = Inr y"
  obtains x where "m = Inr x" "k x = Inr y"
  using assms by (cases m) auto

lemma exitBee_evolves: "exitBee s p b = Inr s' \<Longrightarrow> evolves P s s'"
  by (auto simp: exitBee_def Let_def split: option.splits
      intro: evolves_trans_same[OF removeBee_evolves addBee_evolves])

lemma bee_act_evolves:
  assumes "bee_act s b = Inr s'"
  shows "evolves UNIV s s'"
proof -
  from assms obtain p where p: "b_place (heap_bees s b) = Some p"
    by (auto simp: bee_act_def split: option.splits)
  from assms obtain s2 where s': "s' = setStatus s2 b None"
    and mid: "(case getAnt s p of
                Some ant \<Rightarrow>
                  if b_status (heap_bees s b) \<noteq> Some ''cold'' then
                    (case ant_reduceArmor s ant (b_damage (heap_bees s b)) of
                       Inl e \<Rightarrow> Inl e
                     | Inr (died, s1) \<Rightarrow> Inr s1)
                  else Inr s
              | None \<Rightarrow>
                  if b_armor (heap_bees s b) > 0 then
                    (if b_status (heap_bees s b) \<noteq> Some ''stuck'' then exitBee s p b
                     else Inr s)
                  else Inr s) = Inr s2"
    unfolding bee_act_def p option.case by (elim bindE) auto
  have "evolves UNIV s s2"
  proof (cases "getAnt s p")
    case None
    with mid show ?thesis
      by (auto split: if_splits intro: exitBee_evolves)
  next
    case (Some ant)
    show ?thesis
    proof (cases "b_status (heap_bees s b) \<noteq> Some ''cold''")
      case True
      with mid Some obtain d where "ant_reduceArmor s ant (b_damage (heap_bees s b)) = Inr (d, s2)"
        by (auto elim!: bindE)
      then show ?thesis by (rule ant_reduceArmor_evolves) simp
    next
      case False
      with mid Some show ?thesis by simp
    qed
  qed
  then show ?thesis unfolding s' by (rule evolves_trans_same) simp
qed

lemma increaseFood_evolves [simp]: "evolves P s (increaseFood s n)"
  by (simp add: evolves_def increaseFood_def)

lemma addBoost_evolves [simp]: "evolves P s (addBoost s b)"
  by (simp add: evolves_def addBoost_def Let_def)

lemma random_evolves [simp]: "evolves P s (snd (random s))"
  by (simp add: evolves_def random_def)

lemma grower_act_cases:
  "grower_act s a = Inr s' \<Longrightarrow>
   s' = increaseFood (snd (random s)) 1 \<or> (\<exists>b. s' = addBoost (snd (random s)) b) \<or>
   s' = snd (random s)"
  by (auto simp: grower_act_def Let_def split: prod.splits if_splits)

lemma grower_act_evolves: "grower_act s a = Inr s' \<Longrightarrow> evolves P s s'"
  by (drule grower_act_cases)
    (auto intro: evolves_trans_same[OF random_evolves increaseFood_evolves]
      evolves_trans_same[OF random_evolves addBoost_evolves])

lemma spray_loop_evolves: "spray_loop fuel s a = Inr s' \<Longrightarrow> evolves P s s'"
proof (induction fuel arbitrary: s)
  case 0
  then show ?case
    by (subst (asm) spray_loop.simps) (auto split: option.splits)
next
  case (Suc k)
  from Suc.prems show ?case
  proof (subst (asm) spray_loop.simps, goal_cases)
    case 1
    show ?case
    proof (cases "a_place (heap_ants s a)")
      case None
      with 1 show ?thesis by simp
    next
      case (Some p)
      show ?thesis
      proof (cases "getClosestBee s p 0 0")
        case None
        with 1 Some show ?thesis by simp
      next
        case (Some target)
        with 1 \<open>a_place (heap_ants s a) = Some p\<close> obtain d s1 where
          r: "reduceArmor s (BeeRef target) 10 = Inr (d, s1)" and l: "spray_loop k s1 a = Inr s'"
          by (auto elim!: bindE)
        from reduceArmor_bee_evolves[OF r] Suc.IH[OF l] show ?thesis
          by (rule evolves_trans_same)
      qed
    qed
  qed
qed

lemma thrower_act_evolves:
  assumes "thrower_act fuel s a = Inr s'"
    and "set_option (a_place (heap_ants s a)) \<subseteq> P"
  shows "evolves P s s'"
proof (cases "a_boost (heap_ants s a) \<noteq> Some ''BugSpray''")
  case True
  with assms(1) obtain p where p: "a_place (heap_ants s a) = Some p"
    by (auto simp: thrower_act_def split: option.splits)
  let ?t = "if a_boost (heap_ants s a) = Some ''FlyingLeaf''
            then getClosestBee s p 5 0 else getClosestBee s p 3 0"
  show ?thesis
  proof (cases ?t)
    case None
    with True p assms(1) have "s' = s" by (simp add: thrower_act_def)
    then show ?thesis by simp
  next
    case (Some target)
    with True p assms(1) obtain d s1 where r: "reduceArmor s (BeeRef target) 1 = Inr (d, s1)"
      and s': "s' = upd_ant a (\<lambda>a. a\<lparr>a_boost := None\<rparr>)
          (let s2 = (if a_boost (heap_ants s1 a) = Some ''StickyLeaf''
                     then setStatus s1 target (Some ''stuck'') else s1)
           in if a_boost (heap_ants s2 a) = Some ''IcyLeaf''
              then setStatus s2 target (Some ''cold'') else s2)"
      by (auto simp: thrower_act_def Let_def elim!: bindE)
    have e1: "evolves P s s1" using r by (rule reduceArmor_bee_evolves)
    have e2: "evolves P s1 (let s2 = (if a_boost (heap_ants s1 a) = Some ''StickyLeaf''
                     then setStatus s1 target (Some ''stuck'') else s1)
           in if a_boost (heap_ants s2 a) = Some ''IcyLeaf''
              then setStatus s2 target (Some ''cold'') else s2)"
      by (auto simp: Let_def intro: evolves_trans_same[OF setStatus_evolves setStatus_evolves])
    have e3: "evolves P s1 s'"
      unfolding s' by (rule evolves_trans_same[OF e2]) (rule upd_ant_evolves, simp_all)
    from e1 e3 show ?thesis by (rule evolves_trans_same)
  qed
next
  case False
  with assms(1) obtain s1 d where sp: "spray_loop fuel s a = Inr s1"
    and r: "reduceArmor s1 (AntRef a) 10 = Inr (d, s')"
    by (auto simp: thrower_act_def elim!: bindE)
  have e1: "evolves P s s1" using sp by (rule spray_loop_evolves)
  then have "set_option (a_place (heap_ants s1 a)) \<subseteq> P"
    using assms(2) by (simp add: evolves_place)
  from reduceArmor_ant_evolves[OF r this] e1 show ?thesis
    by (blast intro: evolves_trans_same)
qed

lemma eater_act_evolves:
  assumes "eater_act s a = Inr s'"
  shows "evolves P s s'"
proof -
  have u: "evolves P x (upd_ant a (\<lambda>a. a\<lparr>a_turnsEating := n a\<rparr>) x)" for x n
    by (rule upd_ant_evolves) simp_all
  have two: "evolves P s (addBee (removeBee s p t) q t)" for p t q
    by (rule evolves_trans_same[OF removeBee_evolves addBee_evolves])
  consider (eat) "a_turnsEating (heap_ants s a) = 0"
    | (out) "a_turnsEating (heap_ants s a) \<noteq> 0" "a_turnsEating (heap_ants s a) > 3"
    | (digest) "a_turnsEating (heap_ants s a) \<noteq> 0" "\<not> a_turnsEating (heap_ants s a) > 3"
    by blast
  then show ?thesis
  proof cases
    case eat
    with assms obtain p where p: "a_place (heap_ants s a) = Some p"
      by (auto simp: eater_act_def split: option.splits)
    show ?thesis
    proof (cases "getClosestBee s p 0 0")
      case None
      with eat p assms show ?thesis by (simp add: eater_act_def)
    next
      case (Some t)
      with eat p assms have "s' = upd_ant a (\<lambda>a. a\<lparr>a_turnsEating := 1\<rparr>)
          (addBee (removeBee s p t) (StomachPlace a) t)"
        by (simp add: eater_act_def)
      then show ?thesis using evolves_trans_same[OF two u] by simp
    qed
  next
    case out
    with assms have s': "s' = upd_ant a (\<lambda>a. a\<lparr>a_turnsEating := 0\<rparr>)
        (case getBees s (StomachPlace a) of [] \<Rightarrow> s | b # _ \<Rightarrow> removeBee s (StomachPlace a) b)"
      by (simp add: eater_act_def)
    have "evolves P s (case getBees s (StomachPlace a) of [] \<Rightarrow> s
        | b # _ \<Rightarrow> removeBee s (StomachPlace a) b)"
      by (simp split: list.splits)
    then show ?thesis unfolding s' using u by (rule evolves_trans_same)
  next
    case digest
    with assms have "s' = upd_ant a (\<lambda>a. a\<lparr>a_turnsEating := a_turnsEating a + 1\<rparr>) s"
      by (simp add: eater_act_def)
    then show ?thesis using u by simp
  qed
qed

lemma ant_act_evolves:
  assumes "ant_act fuel s a = Inr s'"
    and "set_option (a_place (heap_ants s a)) \<subseteq> P"
  shows "evolves P s s'"
  using assms
  by (cases "a_kind (heap_ants s a)")
    (auto simp: ant_act_def scuba_act_def guard_act_def
      intro: grower_act_evolves thrower_act_evolves eater_act_evolves)

lemma guard_ant_act: "a_kind (heap_ants s a) = Guard \<Longrightarrow> ant_act fuel s a = Inr s"
  by (simp add: ant_act_def guard_act_def)

lemma antsAct_body_other:
  assumes "a_kind (heap_ants s a) \<noteq> Guard" "antsAct_body fuel s a = Inr (acted, s')"
  shows "acted = [a] \<and> ant_act fuel s a = Inr s'"
  using assms by (auto simp: antsAct_body_def elim!: bindE)

lemma antsAct_body_guard:
  assumes g: "a_kind (heap_ants s a) = Guard" and b: "antsAct_body fuel s a = Inr (acted, s')"
  shows "\<exists>p. a_place (heap_ants s a) = Some p \<and>
      (p_ant (heap_places s p) = None \<and> acted = [a] \<and> s' = s \<or>
       (\<exists>x. p_ant (heap_places s p) = Some x \<and> ant_act fuel s x = Inr s' \<and> acted = [x, a]))"
proof -
  from g b obtain p where p: "a_place (heap_ants s a) = Some p"
    by (auto simp: antsAct_body_def getGuarded_def split: option.splits)
  show ?thesis
  proof (cases "p_ant (heap_places s p)")
    case None
    with g b p show ?thesis
      by (auto simp: antsAct_body_def getGuarded_def getGuardedAnt_def guard_ant_act)
  next
    case (Some x)
    with g b p obtain s1 where x: "ant_act fuel s x = Inr s1"
      and a: "(case ant_act fuel s1 a of Inl e \<Rightarrow> Inl e | Inr s2 \<Rightarrow> Inr ([x, a], s2))
              = Inr (acted, s')"
      by (auto simp: antsAct_body_def getGuarded_def getGuardedAnt_def elim!: bindE)
    from ant_act_evolves[OF x subset_UNIV] g have "a_kind (heap_ants s1 a) = Guard"
      by (simp add: evolves_kind)
    with a have "acted = [x, a]" "s' = s1" by (simp_all add: guard_ant_act)
    with p Some x show ?thesis by simp
  qed
qed

lemma antsAct_body_evolves:
  assumes "antsAct_body fuel s a = Inr (acted, s')"
  shows "evolves UNIV s s'"
proof (cases "a_kind (heap_ants s a) = Guard")
  case False
  from antsAct_body_other[OF False assms] show ?thesis
    by (auto intro: ant_act_evolves)
next
  case True
  from antsAct_body_guard[OF True assms] show ?thesis
    by (auto intro: ant_act_evolves)
qed

lemma antsAct_loop_evolves:
  "antsAct_loop fuel ants s = Inr (acted, s') \<Longrightarrow> evolves UNIV s s'"
proof (induction ants arbitrary: s acted)
  case Nil
  then show ?case by simp
next
  case (Cons a ants)
  from Cons.prems obtain acted1 s1 acted2 where
    b: "antsAct_body fuel s a = Inr (acted1, s1)" and l: "antsAct_loop fuel ants s1 = Inr (acted2, s')"
    by (auto elim!: bindE split: prod.splits)
  from antsAct_body_evolves[OF b] Cons.IH[OF l] show ?case by (rule evolves_trans_same)
qed

lemma antsAct_evolves: "antsAct fuel s = Inr s' \<Longrightarrow> evolves UNIV s s'"
  by (auto simp: antsAct_def antsAct_calls_def elim!: bindE intro: antsAct_loop_evolves)

lemma beesAct_loop_evolves: "beesAct_loop bs s = Inr s' \<Longrightarrow> evolves UNIV s s'"
proof (induction bs arbitrary: s)
  case Nil
  then show ?case by simp
next
  case (Cons b bs)
  from Cons.prems obtain s1 where b: "bee_act s b = Inr s1" and l: "beesAct_loop bs s1 = Inr s'"
    by (auto elim!: bindE)
  from bee_act_evolves[OF b] Cons.IH[OF l] show ?case by (rule evolves_trans_same)
qed

lemma beesAct_evolves: "beesAct s = Inr s' \<Longrightarrow> evolves UNIV s s'"
  by (simp add: beesAct_def beesAct_loop_evolves)

lemma place_act_evolves: "evolves UNIV s (place_act s p)"
proof (cases "p_water (heap_places s p)")
  case False
  then show ?thesis by (simp add: place_act_def)
next
  case True
  define s1 where "s1 = (if p_guard (heap_places s p) \<noteq> None then snd (removeAnt s p) else s)"
  have e1: "evolves UNIV s s1"
    unfolding s1_def using removeAnt_evolves[of p UNIV s] by simp
  have "place_act s p =
      (if \<not> is_scuba s1 (p_ant (heap_places s1 p)) then snd (removeAnt s1 p) else s1)"
    using True by (simp add: place_act_def s1_def Let_def)
  moreover have "evolves UNIV s1
      (if \<not> is_scuba s1 (p_ant (heap_places s1 p)) then snd (removeAnt s1 p) else s1)"
    using removeAnt_evolves[of p UNIV s1] by simp
  ultimately show ?thesis using e1 by (auto intro: evolves_trans_same)
qed

lemma fold_place_act_evolves: "evolves UNIV s (fold (\<lambda>p s1. place_act s1 p) ps s)"
proof (induction ps arbitrary: s)
  case Nil
  then show ?case by simp
next
  case (Cons p ps)
  from place_act_evolves[of s p] Cons.IH[of "place_act s p"]
  have "evolves UNIV s (fold (\<lambda>p s1. place_act s1 p) ps (place_act s p))"
    by (rule evolves_trans_same)
  then show ?case by simp
qed

lemma placesAct_evolves: "evolves UNIV s (placesAct s)"
  by (simp add: placesAct_def fold_place_act_evolves)

lemma invade_body_cases:
  assumes "invade_body s b = Inr s'"
  shows "\<exists>e. e \<in> set (beeEntrances s) \<and>
      s' = addBee (snd (random (removeBee s HivePlace b))) e b"
proof -
  let ?s1 = "removeBee s HivePlace b"
  let ?i = "\<lfloor>fst (random ?s1) * real (length (beeEntrances ?s1))\<rfloor>"
  have en: "beeEntrances ?s1 = beeEntrances s"
    by (simp add: removeBee_def upd_bee_def upd_place_def)
  from assms have r: "0 \<le> ?i \<and> ?i < int (length (beeEntrances ?s1))"
    and s': "s' = addBee (snd (random ?s1)) (beeEntrances ?s1 ! nat ?i) b"
    by (auto simp: invade_body_def Let_def split: prod.splits if_splits)
  from r have "nat ?i < length (beeEntrances ?s1)" by linarith
  then have "beeEntrances ?s1 ! nat ?i \<in> set (beeEntrances s)"
    unfolding en by (rule nth_mem)
  with s' show ?thesis by blast
qed

lemma invade_body_evolves:
  assumes "invade_body s b = Inr s'"
  shows "evolves P s s'"
proof -
  from invade_body_cases[OF assms] obtain e where
    s': "s' = addBee (snd (random (removeBee s HivePlace b))) e b" by blast
  have "evolves P s (removeBee s HivePlace b)" by simp
  moreover have "evolves P (removeBee s HivePlace b) (snd (random (removeBee s HivePlace b)))"
    by simp
  moreover have "evolves P (snd (random (removeBee s HivePlace b))) s'"
    unfolding s' by simp
  ultimately show ?thesis by (blast intro: evolves_trans_same)
qed

lemma invade_loop_evolves: "invade_loop w s = Inr s' \<Longrightarrow> evolves P s s'"
proof (induction w arbitrary: s)
  case Nil
  then show ?case by simp
next
  case (Cons b w)
  from Cons.prems obtain s1 where b: "invade_body s b = Inr s1" and l: "invade_loop w s1 = Inr s'"
    by (auto elim!: bindE)
  from invade_body_evolves[OF b] Cons.IH[OF l] show ?case by (rule evolves_trans_same)
qed

lemma invade_evolves: "invade s t = Inr (w, s') \<Longrightarrow> evolves P s s'"
  by (auto simp: invade_def split: option.splits elim!: bindE intro: invade_loop_evolves)

lemma takeTurn_evolves:
  assumes "takeTurn fuel s = Inr s'"
  shows "evolves UNIV s s'"
proof -
  from assms obtain s1 s2 w s3 where a: "antsAct fuel s = Inr s1" and b: "beesAct s1 = Inr s2"
    and i: "invade (placesAct s2) (turn (placesAct s2)) = Inr (w, s3)"
    and s': "s' = s3\<lparr>turn := turn s3 + 1\<rparr>"
    by (auto simp: takeTurn_def elim!: bindE)
  have "evolves UNIV s3 s'" by (simp add: s' evolves_def)
  with antsAct_evolves[OF a] beesAct_evolves[OF b] placesAct_evolves[of s2] invade_evolves[OF i]
  show ?thesis by (blast intro: evolves_trans_same)
qed

lemma slots_ok_counts: "slots_ok s \<Longrightarrow> regular_count s p \<le> 1 \<and> guard_count s p \<le> 1"
  by (auto simp: slots_ok_def regular_count_def guard_count_def defenders_def split: option.splits)

lemma new_Ant_slots_ok: "slots_ok s \<Longrightarrow> slots_ok (snd (new_Ant s k ar c))"
  unfolding slots_ok_def new_Ant_def by (auto simp: less_Suc_eq)

lemma new_Ant_fresh:
  "slots_ok s \<Longrightarrow> p_guard (heap_places (snd (new_Ant s k ar c)) q) \<noteq> Some (fst (new_Ant s k ar c)) \<and>
     p_ant (heap_places (snd (new_Ant s k ar c)) q) \<noteq> Some (fst (new_Ant s k ar c))"
  unfolding slots_ok_def new_Ant_def by auto

lemma new_Ant_fields:
  "fst (new_Ant s k ar c) < next_ant (snd (new_Ant s k ar c))"
  "a_kind (heap_ants (snd (new_Ant s k ar c)) (fst (new_Ant s k ar c))) = k"
  "places (snd (new_Ant s k ar c)) = places s"
  by (simp_all add: new_Ant_def)

lemma addAnt_slots_ok:
  assumes ok: "slots_ok s" and lt: "ant < next_ant s"
    and fresh: "\<And>q. p_guard (heap_places s q) \<noteq> Some ant \<and> p_ant (heap_places s q) \<noteq> Some ant"
  shows "slots_ok (snd (addAnt s p ant))"
  using assms unfolding slots_ok_def addAnt_def upd_ant_def upd_place_def
  by (auto split: if_splits)

lemma food_update_slots_ok [simp]: "slots_ok (s\<lparr>food := f\<rparr>) = slots_ok s"
  by (simp add: slots_ok_def)

lemma deployAnt_slots_ok:
  assumes ok: "slots_ok s" and lt: "ant < next_ant s"
    and fresh: "\<And>q. p_guard (heap_places s q) \<noteq> Some ant \<and> p_ant (heap_places s q) \<noteq> Some ant"
    and d: "deployAnt s ant place = Inr (r, s')"
  shows "slots_ok s'"
proof (cases "food s \<ge> a_foodCost (heap_ants s ant)")
  case False
  with d ok show ?thesis by (simp add: deployAnt_def)
next
  case True
  with d obtain p where p: "place = Some p" by (auto simp: deployAnt_def split: option.splits)
  have a: "slots_ok (snd (addAnt s p ant))" using ok lt fresh by (rule addAnt_slots_ok)
  from d True p have "s' = snd (addAnt s p ant) \<or>
      s' = (snd (addAnt s p ant))\<lparr>food := food (snd (addAnt s p ant)) -
             a_foodCost (heap_ants (snd (addAnt s p ant)) ant)\<rparr>"
    by (auto simp: deployAnt_def Let_def split: prod.splits if_splits)
  with a show ?thesis by auto
qed

lemma new_EaterAnt_eq:
  "new_EaterAnt s = (fst (new_Ant s Eater 2 4),
     upd_place (StomachPlace (fst (new_Ant s Eater 2 4))) (\<lambda>pl. empty_place)
       (snd (new_Ant s Eater 2 4)))"
  by (simp add: new_EaterAnt_def split: prod.splits)

lemma clear_place_slots_ok: "slots_ok s \<Longrightarrow> slots_ok (upd_place q (\<lambda>pl. empty_place) s)"
  unfolding slots_ok_def upd_place_def empty_place_def by auto

lemma new_Ant_fresh_ant:
  "slots_ok s \<Longrightarrow> fresh_ant (snd (new_Ant s k ar c)) (fst (new_Ant s k ar c))"
  unfolding fresh_ant_def using new_Ant_fresh[of s k ar c] new_Ant_fields(1)[of s k ar c]
  by blast

lemma new_EaterAnt_ok:
  assumes "slots_ok s"
  shows "slots_ok (snd (new_EaterAnt s)) \<and> fresh_ant (snd (new_EaterAnt s)) (fst (new_EaterAnt s))"
proof -
  from new_Ant_fresh_ant[OF assms, of Eater 2 4]
  have "fresh_ant (upd_place (StomachPlace (fst (new_Ant s Eater 2 4))) (\<lambda>pl. empty_place)
       (snd (new_Ant s Eater 2 4))) (fst (new_Ant s Eater 2 4))"
    unfolding fresh_ant_def upd_place_def empty_place_def by auto
  with clear_place_slots_ok[OF new_Ant_slots_ok[OF assms]] show ?thesis
    by (simp add: new_EaterAnt_eq)
qed

lemma AntGame_deployAnt_slots_ok:
  assumes ok: "slots_ok s"
  shows "slots_ok (snd (AntGame_deployAnt s antType coords))"
proof -
  define mk where "mk = (let lowered = toLowerCase antType in
            if lowered = ''grower'' then Some (new_GrowerAnt s)
            else if lowered = ''thrower'' then Some (new_ThrowerAnt s)
            else if lowered = ''eater'' then Some (new_EaterAnt s)
            else if lowered = ''scuba'' then Some (new_ScubaAnt s)
            else if lowered = ''guard'' then Some (new_GuardAnt s)
            else None)"
  have mk_ok: "slots_ok s1 \<and> fresh_ant s1 ant" if "mk = Some (ant, s1)" for ant s1
  proof -
    from that have "(ant, s1) = new_EaterAnt s \<or> (\<exists>k ar c. (ant, s1) = new_Ant s k ar c)"
      by (auto simp: mk_def Let_def new_GrowerAnt_def new_ThrowerAnt_def new_ScubaAnt_def
          new_GuardAnt_def split: if_splits dest: sym)
    then show ?thesis
    proof
      assume "(ant, s1) = new_EaterAnt s"
      with new_EaterAnt_ok[OF ok] show ?thesis by (metis fst_conv snd_conv)
    next
      assume "\<exists>k ar c. (ant, s1) = new_Ant s k ar c"
      then obtain k ar c where e: "(ant, s1) = new_Ant s k ar c" by blast
      from new_Ant_slots_ok[OF ok, of k ar c] new_Ant_fresh_ant[OF ok, of k ar c] e
      show ?thesis by (metis fst_conv snd_conv)
    qed
  qed
  have unfold: "AntGame_deployAnt s antType coords =
      (case mk of None \<Rightarrow> (Some ''unknown ant type'', s)
       | Some (ant, s1) \<Rightarrow>
          (case place_at s1 coords of
             Inl e \<Rightarrow> (Some ''illegal location'', s1)
           | Inr place \<Rightarrow>
               (case deployAnt s1 ant place of
                  Inl e \<Rightarrow> (Some ''illegal location'', s1)
                | Inr r \<Rightarrow> r)))"
    by (simp add: AntGame_deployAnt_def mk_def Let_def)
  show ?thesis
  proof (cases mk)
    case None
    with ok show ?thesis by (simp add: unfold)
  next
    case (Some x)
    obtain ant s1 where x: "x = (ant, s1)" by (cases x)
    from mk_ok[of ant s1] Some x have s1: "slots_ok s1" "fresh_ant s1 ant" by simp_all
    show ?thesis
    proof (cases "place_at s1 coords")
      case (Inl e)
      with Some x s1 show ?thesis by (simp add: unfold)
    next
      case (Inr place)
      show ?thesis
      proof (cases "deployAnt s1 ant place")
        case (Inl e)
        with Some x s1 Inr show ?thesis by (simp add: unfold)
      next
        case d: (Inr r)
        obtain msg s' where r: "r = (msg, s')" by (cases r)
        from s1 have "slots_ok s'"
          using deployAnt_slots_ok[of s1 ant place msg s'] d r
          by (simp add: fresh_ant_def)
        with Some x Inr d r show ?thesis by (simp add: unfold)
      qed
    qed
  qed
qed

lemma AntGame_removeAnt_evolves: "evolves UNIV s (snd (AntGame_removeAnt s coords))"
  by (auto simp: AntGame_removeAnt_def removeAnt_evolves split: sum.splits option.splits)

lemma setBoost_evolves [simp]: "evolves P s (setBoost s a b)"
  unfolding setBoost_def by (rule upd_ant_evolves) simp_all

lemma AntGame_boostAnt_evolves: "evolves UNIV s (snd (AntGame_boostAnt s b coords))"
  by (auto simp: AntGame_boostAnt_def applyBoost_def split: sum.splits option.splits if_splits)

lemma addWave_loop_evolves: "evolves P s (snd (addWave_loop n s w))"
proof (induction n arbitrary: s w)
  case 0
  then show ?case by simp
next
  case (Suc n)
  let ?s1 = "snd (new_Bee s (beeArmor s) (beeDamage s) (Some HivePlace))"
  let ?b = "fst (new_Bee s (beeArmor s) (beeDamage s) (Some HivePlace))"
  have "evolves P s ?s1" by (simp add: evolves_def new_Bee_def)
  moreover have "evolves P ?s1 (addBee ?s1 HivePlace ?b)" by simp
  moreover note Suc.IH[of "addBee ?s1 HivePlace ?b" "w @ [?b]"]
  ultimately have "evolves P s (snd (addWave_loop n (addBee ?s1 HivePlace ?b) (w @ [?b])))"
    by (blast intro: evolves_trans_same)
  then show ?case by (simp add: split_beta)
qed

lemma addWave_evolves: "evolves P s (addWave s t n)"
proof -
  have "evolves P (snd (addWave_loop n s [])) (addWave s t n)"
    by (simp add: addWave_def evolves_def split_beta)
  with addWave_loop_evolves[of P s n "[]"] show ?thesis by (rule evolves_trans_same)
qed

lemma exec_slots_ok:
  assumes "exec c s = Inr s'" "slots_ok s"
  shows "slots_ok s'"
proof (cases c)
  case (TakeTurn fuel)
  with assms(1) have "takeTurn fuel s = Inr s'" by (simp add: exec_def)
  from evolves_slots_ok[OF takeTurn_evolves[OF this] assms(2)] show ?thesis .
next
  case (DeployAnt x y)
  with assms show ?thesis by (auto simp: exec_def AntGame_deployAnt_slots_ok)
next
  case (RemoveAnt x)
  with assms(1) have "s' = snd (AntGame_removeAnt s x)" by (simp add: exec_def)
  with evolves_slots_ok[OF AntGame_removeAnt_evolves assms(2)] show ?thesis by simp
next
  case (BoostAnt x y)
  with assms(1) have "s' = snd (AntGame_boostAnt s x y)" by (simp add: exec_def)
  with evolves_slots_ok[OF AntGame_boostAnt_evolves assms(2)] show ?thesis by simp
next
  case (AddWave t n)
  with assms(1) have "s' = addWave s t n" by (simp add: exec_def)
  with evolves_slots_ok[OF addWave_evolves assms(2)] show ?thesis by simp
qed

lemma run_slots_ok: "run cmds s = Inr s' \<Longrightarrow> slots_ok s \<Longrightarrow> slots_ok s'"
proof (induction cmds arbitrary: s)
  case Nil
  then show ?case by simp
next
  case (Cons c cmds)
  from Cons.prems(1) obtain s1 where e: "exec c s = Inr s1" and r: "run cmds s1 = Inr s'"
    by (auto elim!: bindE)
  from Cons.IH[OF r exec_slots_ok[OF e Cons.prems(2)]] show ?case .
qed

lemma colony_step_fold:
  "clean_heap h \<Longrightarrow> cur \<noteq> HivePlace \<Longrightarrow>
   \<exists>cur' h'. fold (colony_step t m) steps (cur, h, row) = (cur', h', row @ map (TunnelPlace t) steps)
      \<and> clean_heap h' \<and> cur' \<noteq> HivePlace"
proof (induction steps arbitrary: cur h row)
  case Nil
  then show ?case by simp
next
  case (Cons x steps)
  define h1 where "h1 =
      (h(TunnelPlace t x := empty_place\<lparr>p_water := (m \<noteq> 0 \<and> (x + 1) mod m = 0),
            p_exit := Some cur\<rparr>))
        (cur := ((h(TunnelPlace t x := empty_place\<lparr>p_water := (m \<noteq> 0 \<and> (x + 1) mod m = 0),
            p_exit := Some cur\<rparr>)) cur)\<lparr>p_entrance := Some (TunnelPlace t x)\<rparr>)"
  have st: "colony_step t m x (cur, h, row) = (TunnelPlace t x, h1, row @ [TunnelPlace t x])"
    by (simp add: colony_step_def Let_def h1_def)
  have c: "clean_heap h1"
    using Cons.prems by (simp add: clean_heap_def empty_place_def h1_def)
  have "TunnelPlace t x \<noteq> HivePlace" by simp
  from Cons.IH[OF c this, of "row @ [TunnelPlace t x]"] obtain cur' h' where
    "fold (colony_step t m) steps (TunnelPlace t x, h1, row @ [TunnelPlace t x]) =
       (cur', h', (row @ [TunnelPlace t x]) @ map (TunnelPlace t) steps)"
    "clean_heap h'" "cur' \<noteq> HivePlace" by blast
  then show ?case by (simp add: st)
qed

lemma colony_tunnel_fold:
  "clean_heap h \<Longrightarrow> HivePlace \<notin> set ent \<Longrightarrow>
   \<exists>h' ent'. fold (colony_tunnel len m) ts (h, grid, ent) =
       (h', grid @ map (\<lambda>t. map (TunnelPlace t) [0..<len]) ts, ent') \<and> clean_heap h' \<and>
       HivePlace \<notin> set ent'"
proof (induction ts arbitrary: h grid ent)
  case Nil
  then show ?case by simp
next
  case (Cons t ts)
  have "QueenPlace \<noteq> HivePlace" by simp
  from colony_step_fold[OF Cons.prems(1) this, of t m "[0..<len]" "[]"]
  obtain cur' h1 where f: "fold (colony_step t m) [0..<len] (QueenPlace, h, []) =
      (cur', h1, map (TunnelPlace t) [0..<len])" and c: "clean_heap h1"
    and n: "cur' \<noteq> HivePlace"
    by auto
  then have st: "colony_tunnel len m t (h, grid, ent) =
      (h1, grid @ [map (TunnelPlace t) [0..<len]], ent @ [cur'])"
    by (simp add: colony_tunnel_def)
  from n Cons.prems(2) have "HivePlace \<notin> set (ent @ [cur'])" by simp
  from Cons.IH[OF c this, of "grid @ [map (TunnelPlace t) [0..<len]]"] st
  show ?case by auto
qed

lemma new_AntGame_fields:
  "places (new_AntGame f nT len m ba bd rnd) = board nT len"
  "clean_heap (heap_places (new_AntGame f nT len m ba bd rnd))"
  "heap_ants (new_AntGame f nT len m ba bd rnd) = (\<lambda>a. default_ant)"
  "heap_bees (new_AntGame f nT len m ba bd rnd) = (\<lambda>a. default_bee)"
  "next_ant (new_AntGame f nT len m ba bd rnd) = 0"
  "next_bee (new_AntGame f nT len m ba bd rnd) = 0"
  "waves (new_AntGame f nT len m ba bd rnd) = Map.empty"
  "turn (new_AntGame f nT len m ba bd rnd) = 0"
  "food (new_AntGame f nT len m ba bd rnd) = f"
  "HivePlace \<notin> set (beeEntrances (new_AntGame f nT len m ba bd rnd))"
proof -
  have ch: "clean_heap (\<lambda>p. empty_place)" by (simp add: clean_heap_def empty_place_def)
  have "HivePlace \<notin> set []" by simp
  from colony_tunnel_fold[OF ch this, of len m "[0..<nT]" "[]"]
  obtain h' ent' where "fold (colony_tunnel len m) [0..<nT] (\<lambda>p. empty_place, [], []) =
      (h', map (\<lambda>t. map (TunnelPlace t) [0..<len]) [0..<nT], ent')" "clean_heap h'"
      "HivePlace \<notin> set ent'"
    by auto
  then show "places (new_AntGame f nT len m ba bd rnd) = board nT len"
    "clean_heap (heap_places (new_AntGame f nT len m ba bd rnd))"
    "heap_ants (new_AntGame f nT len m ba bd rnd) = (\<lambda>a. default_ant)"
    "heap_bees (new_AntGame f nT len m ba bd rnd) = (\<lambda>a. default_bee)"
    "next_ant (new_AntGame f nT len m ba bd rnd) = 0"
    "next_bee (new_AntGame f nT len m ba bd rnd) = 0"
    "waves (new_AntGame f nT len m ba bd rnd) = Map.empty"
    "turn (new_AntGame f nT len m ba bd rnd) = 0"
    "food (new_AntGame f nT len m ba bd rnd) = f"
    "HivePlace \<notin> set (beeEntrances (new_AntGame f nT len m ba bd rnd))"
    by (simp_all add: new_AntGame_def board_def)
qed

lemma new_AntGame_slots_ok: "slots_ok (new_AntGame f nT len m ba bd rnd)"
  using new_AntGame_fields(2)[of f nT len m ba bd rnd]
  by (simp add: slots_ok_def clean_heap_def)

lemma concat_board: "set (concat (board nT len)) = {TunnelPlace t i | t i. t < nT \<and> i < len}"
  by (auto simp: board_def)

lemma distinct_board: "distinct (concat (board nT len))"
proof (induction nT)
  case 0
  then show ?case by (simp add: board_def)
next
  case (Suc n)
  have "concat (board (Suc n) len) = concat (board n len) @ map (TunnelPlace n) [0..<len]"
    by (simp add: board_def)
  moreover have "distinct (map (TunnelPlace n) [0..<len])"
    by (simp add: distinct_map inj_on_def)
  moreover have "set (concat (board n len)) \<inter> set (map (TunnelPlace n) [0..<len]) = {}"
    unfolding concat_board by auto
  ultimately show ?case using Suc by simp
qed

text \<open>
  C8.  In every state that a game reaches from its construction by turns, deploy, remove
  and boost commands and wave scheduling, every place holds at most one regular (non-Guard)
  defender and at most one Guard.  The number of bees of a place is a length, so it is not
  negative, and \<^verbatim>\<open>addBee\<close> always adds one more: there is no bound.  Since a run extended by
  one more operation is a run, every operation preserves the invariant.
\<close>

theorem occupancy_invariant:
  assumes "run cmds (new_AntGame startingFood numTunnels tunnelLength moatFrequency armor damage rnd)
           = Inr s"
  shows "regular_count s p \<le> 1 \<and> guard_count s p \<le> 1 \<and>
         0 \<le> int (length (getBees s p)) \<and>
         length (getBees (addBee s p bee) p) = length (getBees s p) + 1"
proof -
  from run_slots_ok[OF assms new_AntGame_slots_ok] have "slots_ok s" .
  from slots_ok_counts[OF this, of p] show ?thesis
    by (simp add: getBees_def addBee_def upd_bee_def upd_place_def)
qed

theorem occupancy_invariant_witness:
  "run [DeployAnt ''Grower'' ''0,0'', DeployAnt ''Guard'' ''0,0'']
     (new_AntGame 10 1 1 0 2 1 (\<lambda>n. 0)) = Inr guarded_game \<and>
   regular_count guarded_game (TunnelPlace 0 0) \<le> 1 \<and>
   guard_count guarded_game (TunnelPlace 0 0) \<le> 1 \<and>
   defenders guarded_game (TunnelPlace 0 0) = [1, 0]"
proof -
  have r: "run [DeployAnt ''Grower'' ''0,0'', DeployAnt ''Guard'' ''0,0'']
     (new_AntGame 10 1 1 0 2 1 (\<lambda>n. 0)) = Inr guarded_game"
    by (simp add: exec_def guarded_game_def tiny_game_def)
  have d: "defenders guarded_game (TunnelPlace 0 0) = [1, 0]"
    by (simp add: defenders_def guarded_game_fields)
  from occupancy_invariant[OF r, of "TunnelPlace 0 0"] r d show ?thesis by simp
qed

section \<open>A guarded defender in the sweep of the ants\<close>

lemma antsAct_loop_append:
  "antsAct_loop fuel (us @ ws) s = Inr (acted, s') \<Longrightarrow>
   \<exists>acted1 s1 acted2. antsAct_loop fuel us s = Inr (acted1, s1) \<and>
      antsAct_loop fuel ws s1 = Inr (acted2, s') \<and> acted = acted1 @ acted2"
proof (induction us arbitrary: s acted)
  case Nil
  then show ?case by simp
next
  case (Cons u us)
  from Cons.prems obtain a1 s1 a2 where
    b: "antsAct_body fuel s u = Inr (a1, s1)"
    and l: "antsAct_loop fuel (us @ ws) s1 = Inr (a2, s')" and ac: "acted = a1 @ a2"
    by (auto elim!: bindE split: prod.splits)
  from Cons.IH[OF l] obtain b1 t1 b2 where
    "antsAct_loop fuel us s1 = Inr (b1, t1)" "antsAct_loop fuel ws t1 = Inr (b2, s')"
    "a2 = b1 @ b2" by blast
  with b ac show ?case by simp
qed

lemma antsAct_body_elsewhere:
  assumes ok: "slots_ok s" and pa: "a_place (heap_ants s a) = Some p"
    and x: "x \<noteq> a" "a_place (heap_ants s x) \<noteq> Some p"
    and b: "antsAct_body fuel s x = Inr (acted, s')"
  shows "a \<notin> set acted \<and> evolves (UNIV - {p}) s s'"
proof (cases "a_kind (heap_ants s x) = Guard")
  case False
  from antsAct_body_other[OF False b] have "acted = [x]" "ant_act fuel s x = Inr s'" by simp_all
  moreover from x(2) have "set_option (a_place (heap_ants s x)) \<subseteq> UNIV - {p}" by auto
  ultimately show ?thesis using x(1) by (auto intro: ant_act_evolves)
next
  case True
  from antsAct_body_guard[OF True b] obtain q where q: "a_place (heap_ants s x) = Some q"
    and c: "p_ant (heap_places s q) = None \<and> acted = [x] \<and> s' = s \<or>
       (\<exists>y. p_ant (heap_places s q) = Some y \<and> ant_act fuel s y = Inr s' \<and> acted = [y, x])"
    by blast
  from q x(2) have qp: "q \<noteq> p" by simp
  from c show ?thesis
  proof
    assume "p_ant (heap_places s q) = None \<and> acted = [x] \<and> s' = s"
    with x(1) show ?thesis by simp
  next
    assume "\<exists>y. p_ant (heap_places s q) = Some y \<and> ant_act fuel s y = Inr s' \<and> acted = [y, x]"
    then obtain y where y: "p_ant (heap_places s q) = Some y" "ant_act fuel s y = Inr s'"
      "acted = [y, x]" by blast
    from ok y(1) have py: "a_place (heap_ants s y) = Some q" by (simp add: slots_ok_def)
    with pa qp have "y \<noteq> a" by auto
    moreover from py qp have "set_option (a_place (heap_ants s y)) \<subseteq> UNIV - {p}" by auto
    ultimately show ?thesis using y x(1) by (auto intro: ant_act_evolves)
  qed
qed

lemma antsAct_loop_elsewhere:
  assumes "slots_ok s" "a_place (heap_ants s a) = Some p"
    and "\<forall>x\<in>set xs. x \<noteq> a \<and> a_place (heap_ants s x) \<noteq> Some p"
    and "antsAct_loop fuel xs s = Inr (acted, s')"
  shows "a \<notin> set acted \<and> evolves (UNIV - {p}) s s'"
  using assms
proof (induction xs arbitrary: s acted)
  case Nil
  then show ?case by simp
next
  case (Cons x xs)
  from Cons.prems(4) obtain a1 s1 a2 where
    b: "antsAct_body fuel s x = Inr (a1, s1)"
    and l: "antsAct_loop fuel xs s1 = Inr (a2, s')" and ac: "acted = a1 @ a2"
    by (auto elim!: bindE split: prod.splits)
  from Cons.prems(3) have x: "x \<noteq> a" "a_place (heap_ants s x) \<noteq> Some p" by simp_all
  from antsAct_body_elsewhere[OF Cons.prems(1,2) x b]
  have n1: "a \<notin> set a1" and e1: "evolves (UNIV - {p}) s s1" by simp_all
  have "a \<notin> set a2 \<and> evolves (UNIV - {p}) s1 s'"
  proof (rule Cons.IH[OF _ _ _ l])
    show "slots_ok s1" using e1 Cons.prems(1) by (rule evolves_slots_ok)
    show "a_place (heap_ants s1 a) = Some p" using e1 Cons.prems(2) by (simp add: evolves_place)
    show "\<forall>x\<in>set xs. x \<noteq> a \<and> a_place (heap_ants s1 x) \<noteq> Some p"
      using e1 Cons.prems(3) by (simp add: evolves_place)
  qed
  with n1 e1 ac show ?case by (auto intro: evolves_trans_same)
qed

lemma evolves_elsewhere_slots:
  "evolves (UNIV - {p}) s s' \<Longrightarrow>
   p_guard (heap_places s' p) = p_guard (heap_places s p) \<and>
   p_ant (heap_places s' p) = p_ant (heap_places s p)"
  by (auto simp: evolves_def)

lemma antsAct_loop_guarded:
  assumes ok: "slots_ok s"
    and g: "p_guard (heap_places s p) = Some g" and a: "p_ant (heap_places s p) = Some a"
    and others: "\<forall>x\<in>set us \<union> set vs. x \<noteq> a \<and> a_place (heap_ants s x) \<noteq> Some p"
    and l: "antsAct_loop fuel (us @ g # vs) s = Inr (acted, s')"
  shows "\<exists>before after. acted = before @ [a, g] @ after \<and> a \<notin> set before \<and> a \<notin> set after"
proof -
  from ok g a have pa: "a_place (heap_ants s a) = Some p" and pg: "a_place (heap_ants s g) = Some p"
    and kg: "a_kind (heap_ants s g) = Guard" and ka: "a_kind (heap_ants s a) \<noteq> Guard"
    by (simp_all add: slots_ok_def)
  from antsAct_loop_append[OF l] obtain a1 s1 a2 where
    l1: "antsAct_loop fuel us s = Inr (a1, s1)" and l2: "antsAct_loop fuel (g # vs) s1 = Inr (a2, s')"
    and ac: "acted = a1 @ a2" by blast
  from others have o1: "\<forall>x\<in>set us. x \<noteq> a \<and> a_place (heap_ants s x) \<noteq> Some p" by simp
  from antsAct_loop_elsewhere[OF ok pa o1 l1]
  have n1: "a \<notin> set a1" and e1: "evolves (UNIV - {p}) s s1" by simp_all
  have ok1: "slots_ok s1" using e1 ok by (rule evolves_slots_ok)
  from evolves_elsewhere_slots[OF e1] g a
  have g1: "p_guard (heap_places s1 p) = Some g" and a1': "p_ant (heap_places s1 p) = Some a"
    by simp_all
  from l2 obtain b1 s2 b2 where b: "antsAct_body fuel s1 g = Inr (b1, s2)"
    and l3: "antsAct_loop fuel vs s2 = Inr (b2, s')" and a2: "a2 = b1 @ b2"
    by (auto elim!: bindE split: prod.splits)
  from e1 kg pg have kg1: "a_kind (heap_ants s1 g) = Guard" "a_place (heap_ants s1 g) = Some p"
    by (simp_all add: evolves_kind evolves_place)
  from antsAct_body_guard[OF kg1(1) b] kg1(2) a1'
  have b1: "b1 = [a, g]" and act: "ant_act fuel s1 a = Inr s2" by auto
  have e2: "evolves UNIV s1 s2" using act by (rule ant_act_evolves) simp
  have ok2: "slots_ok s2" using e2 ok1 by (rule evolves_slots_ok)
  have pa2: "a_place (heap_ants s2 a) = Some p"
    using e1 e2 pa by (simp add: evolves_place)
  have o2: "\<forall>x\<in>set vs. x \<noteq> a \<and> a_place (heap_ants s2 x) \<noteq> Some p"
    using e1 e2 others by (simp add: evolves_place)
  from antsAct_loop_elsewhere[OF ok2 pa2 o2 l3] have n2: "a \<notin> set b2" by simp
  from ac a2 b1 n1 n2 show ?thesis by auto
qed

lemma map_filter_append: "List.map_filter f (xs @ ys) = List.map_filter f xs @ List.map_filter f ys"
  by (simp add: List.map_filter_def)

lemma map_filter_set: "x \<in> set (List.map_filter f xs) \<Longrightarrow> \<exists>q\<in>set xs. f q = Some x"
  by (auto simp: List.map_filter_def)

lemma getAllAnts_guarded:
  assumes ok: "slots_ok s" and d: "distinct (concat (places s))"
    and p: "p \<in> set (concat (places s))"
    and g: "p_guard (heap_places s p) = Some g" and a: "p_ant (heap_places s p) = Some a"
  shows "\<exists>us vs. getAllAnts s = us @ g # vs \<and>
      (\<forall>x\<in>set us \<union> set vs. x \<noteq> a \<and> a_place (heap_ants s x) \<noteq> Some p)"
proof -
  from split_list[OF p] obtain ps qs where c: "concat (places s) = ps @ p # qs" by blast
  with d have np: "p \<notin> set ps" "p \<notin> set qs" by auto
  from ok a have pa: "a_place (heap_ants s a) = Some p" by (simp add: slots_ok_def)
  have o: "x \<noteq> a \<and> a_place (heap_ants s x) \<noteq> Some p"
    if "x \<in> set (List.map_filter (getAnt s) zs)" "p \<notin> set zs" for x zs
  proof -
    from map_filter_set[OF that(1)] obtain q where q: "q \<in> set zs" "getAnt s q = Some x" by blast
    from q(2) ok have "a_place (heap_ants s x) = Some q"
      by (auto simp: getAnt_def slots_ok_def split: option.splits)
    moreover from q(1) that(2) have "q \<noteq> p" by auto
    ultimately show ?thesis using pa by auto
  qed
  have "getAllAnts s = List.map_filter (getAnt s) ps @ g # List.map_filter (getAnt s) qs"
    using g by (simp add: getAllAnts_def c map_filter_append)
      (simp add: List.map_filter_def getAnt_def)
  with o np show ?thesis by blast
qed

lemma deployAnt_places: "deployAnt s ant place = Inr (r, s') \<Longrightarrow> places s' = places s"
  by (auto simp: deployAnt_def addAnt_def upd_ant_def upd_place_def Let_def
      split: if_splits option.splits prod.splits)

lemma new_ants_places:
  "places (snd (new_GrowerAnt s)) = places s" "places (snd (new_ThrowerAnt s)) = places s"
  "places (snd (new_EaterAnt s)) = places s" "places (snd (new_ScubaAnt s)) = places s"
  "places (snd (new_GuardAnt s)) = places s"
  by (simp_all add: new_GrowerAnt_def new_ThrowerAnt_def new_EaterAnt_def new_ScubaAnt_def
      new_GuardAnt_def new_Ant_def upd_place_def)

lemma AntGame_deployAnt_cases:
  obtains (unknown) "AntGame_deployAnt s antType coords = (Some ''unknown ant type'', s)"
  | (illegal) ant s1 where
      "new_EaterAnt s = (ant, s1) \<or> (\<exists>k ar c. new_Ant s k ar c = (ant, s1))"
      "AntGame_deployAnt s antType coords = (Some ''illegal location'', s1)"
  | (deployed) ant s1 place r where
      "new_EaterAnt s = (ant, s1) \<or> (\<exists>k ar c. new_Ant s k ar c = (ant, s1))"
      "place_at s1 coords = Inr place"
      "deployAnt s1 ant place = Inr r" "AntGame_deployAnt s antType coords = r"
proof -
  define mk where "mk = (let lowered = toLowerCase antType in
            if lowered = ''grower'' then Some (new_GrowerAnt s)
            else if lowered = ''thrower'' then Some (new_ThrowerAnt s)
            else if lowered = ''eater'' then Some (new_EaterAnt s)
            else if lowered = ''scuba'' then Some (new_ScubaAnt s)
            else if lowered = ''guard'' then Some (new_GuardAnt s)
            else None)"
  have mk_ok: "new_EaterAnt s = (ant, s1) \<or> (\<exists>k ar c. new_Ant s k ar c = (ant, s1))"
    if "mk = Some (ant, s1)" for ant s1
    using that
    by (auto simp: mk_def Let_def new_GrowerAnt_def new_ThrowerAnt_def new_ScubaAnt_def
        new_GuardAnt_def split: if_splits)
  have unfold: "AntGame_deployAnt s antType coords =
      (case mk of None \<Rightarrow> (Some ''unknown ant type'', s)
       | Some (ant, s1) \<Rightarrow>
          (case place_at s1 coords of
             Inl e \<Rightarrow> (Some ''illegal location'', s1)
           | Inr place \<Rightarrow>
               (case deployAnt s1 ant place of
                  Inl e \<Rightarrow> (Some ''illegal location'', s1)
                | Inr r \<Rightarrow> r)))"
    by (simp add: AntGame_deployAnt_def mk_def Let_def)
  show ?thesis
  proof (cases mk)
    case None
    then show ?thesis using unknown by (simp add: unfold)
  next
    case (Some x)
    obtain ant s1 where x: "x = (ant, s1)" by (cases x)
    note m = mk_ok[of ant s1, unfolded Some x, simplified]
    show ?thesis
    proof (cases "place_at s1 coords")
      case (Inl e)
      with Some x show ?thesis using illegal[OF m] by (simp add: unfold)
    next
      case (Inr place)
      show ?thesis
      proof (cases "deployAnt s1 ant place")
        case (Inl e)
        with Some x Inr show ?thesis using illegal[OF m] by (simp add: unfold)
      next
        case d: (Inr r)
        with Some x Inr show ?thesis using deployed[OF m Inr d] by (simp add: unfold)
      qed
    qed
  qed
qed

lemma new_Ant_places:
  "new_EaterAnt s = (ant, s1) \<or> (\<exists>k ar c. new_Ant s k ar c = (ant, s1)) \<Longrightarrow> places s1 = places s"
  by (auto simp: new_EaterAnt_def new_Ant_def upd_place_def)

lemma AntGame_deployAnt_places: "places (snd (AntGame_deployAnt s antType coords)) = places s"
proof (rule AntGame_deployAnt_cases[of s antType coords], goal_cases)
  case 1
  then show ?case by simp
next
  case (2 ant s1)
  then show ?case using new_Ant_places[OF 2(1)] by simp
next
  case (3 ant s1 place r)
  obtain msg s' where r: "r = (msg, s')" by (cases r)
  from 3(3) r have "places s' = places s1" by (auto dest: deployAnt_places)
  with 3(4) r new_Ant_places[OF 3(1)] show ?case by simp
qed

lemma exec_places: "exec c s = Inr s' \<Longrightarrow> places s' = places s"
proof (cases c)
  case (TakeTurn fuel)
  assume "exec c s = Inr s'"
  with TakeTurn have "takeTurn fuel s = Inr s'" by (simp add: exec_def)
  from takeTurn_evolves[OF this] show ?thesis by (simp add: evolves_def)
next
  case (DeployAnt x y)
  assume "exec c s = Inr s'"
  with DeployAnt show ?thesis by (auto simp: exec_def AntGame_deployAnt_places)
next
  case (RemoveAnt x)
  assume "exec c s = Inr s'"
  with RemoveAnt AntGame_removeAnt_evolves[of s x] show ?thesis
    by (auto simp: exec_def evolves_def)
next
  case (BoostAnt x y)
  assume "exec c s = Inr s'"
  with BoostAnt AntGame_boostAnt_evolves[of s x y] show ?thesis
    by (auto simp: exec_def evolves_def)
next
  case (AddWave t n)
  assume "exec c s = Inr s'"
  with AddWave addWave_evolves[of UNIV s t n] show ?thesis
    by (auto simp: exec_def evolves_def)
qed

lemma run_places: "run cmds s = Inr s' \<Longrightarrow> places s' = places s"
proof (induction cmds arbitrary: s)
  case Nil
  then show ?case by simp
next
  case (Cons c cmds)
  from Cons.prems obtain s1 where e: "exec c s = Inr s1" and r: "run cmds s1 = Inr s'"
    by (auto elim!: bindE)
  from Cons.IH[OF r] exec_places[OF e] show ?case by simp
qed

text \<open>
  C1, as amended.  In a state reached from the construction of the game, let a place of
  the board hold the Guard \<open>g\<close> and the shielded defender \<open>a\<close>.  \<^verbatim>\<open>getAllAnts\<close> lists \<open>g\<close> and
  does not list \<open>a\<close>.  In a sweep of \<^verbatim>\<open>antsAct\<close> that completes, the act of \<open>a\<close> is executed
  exactly once: it is the call triggered by \<open>g\<close>, directly before the act of \<open>g\<close> itself; the
  pass over the listed ants never calls it again.
\<close>

theorem guarded_defender_acts_once:
  assumes "run cmds (new_AntGame startingFood numTunnels tunnelLength moatFrequency armor damage rnd)
           = Inr s"
    and "p \<in> set (concat (places s))"
    and "p_guard (heap_places s p) = Some g" and "p_ant (heap_places s p) = Some a"
    and "antsAct_calls fuel s = Inr (acted, s')"
  shows "g \<in> set (getAllAnts s) \<and> a \<notin> set (getAllAnts s) \<and>
         (\<exists>before after. acted = before @ [a, g] @ after \<and> a \<notin> set before \<and> a \<notin> set after) \<and>
         count_list acted a = 1 \<and> act_count fuel s a = Inr 1"
proof -
  have ok: "slots_ok s" using run_slots_ok[OF assms(1) new_AntGame_slots_ok] .
  have d: "distinct (concat (places s))"
    using run_places[OF assms(1)] by (simp add: new_AntGame_fields distinct_board)
  from getAllAnts_guarded[OF ok d assms(2,3,4)] obtain us vs where
    l: "getAllAnts s = us @ g # vs"
    and o: "\<forall>x\<in>set us \<union> set vs. x \<noteq> a \<and> a_place (heap_ants s x) \<noteq> Some p" by blast
  from ok assms(3,4) have "g \<noteq> a" by (auto simp: slots_ok_def)
  with l o have m: "g \<in> set (getAllAnts s)" "a \<notin> set (getAllAnts s)" by auto
  from assms(5) l have "antsAct_loop fuel (us @ g # vs) s = Inr (acted, s')"
    by (simp add: antsAct_calls_def)
  from antsAct_loop_guarded[OF ok assms(3,4) o this] obtain before after where
    ba: "acted = before @ [a, g] @ after" "a \<notin> set before" "a \<notin> set after" by blast
  with \<open>g \<noteq> a\<close> have c: "count_list acted a = 1" by (simp add: count_list_0_iff[THEN iffD2])
  with assms(5) have "act_count fuel s a = Inr 1" by (simp add: act_count_def)
  with m ba c show ?thesis by blast
qed

theorem guarded_defender_acts_once_witness:
  "run [DeployAnt ''Grower'' ''0,0'', DeployAnt ''Guard'' ''0,0'']
     (new_AntGame 10 1 1 0 2 1 (\<lambda>n. 0)) = Inr guarded_game \<and>
   antsAct_calls 0 guarded_game = Inr ([0, 1], increaseFood (snd (random guarded_game)) 1) \<and>
   count_list [0, 1] (0::nat) = 1 \<and> act_count 0 guarded_game 0 = Inr 1"
proof -
  have r: "run [DeployAnt ''Grower'' ''0,0'', DeployAnt ''Guard'' ''0,0'']
     (new_AntGame 10 1 1 0 2 1 (\<lambda>n. 0)) = Inr guarded_game"
    by (simp add: exec_def guarded_game_def tiny_game_def)
  have p: "TunnelPlace 0 0 \<in> set (concat (places guarded_game))"
    using run_places[OF r] by (simp add: new_AntGame_fields board_def)
  have g: "p_guard (heap_places guarded_game (TunnelPlace 0 0)) = Some 1"
    and a: "p_ant (heap_places guarded_game (TunnelPlace 0 0)) = Some 0"
    by (simp_all add: guarded_game_fields)
  from guarded_defender_acts_once[OF r p g a guarded_game_sweep[of 0]] r guarded_game_sweep[of 0]
  show ?thesis by simp
qed

section \<open>A wave that is scheduled twice for one turn\<close>

lemma untouched_refl [simp]: "untouched b s s"
  by (simp add: untouched_def)

lemma untouched_trans: "untouched b s s1 \<Longrightarrow> untouched b s1 s2 \<Longrightarrow> untouched b s s2"
  by (simp add: untouched_def)

lemma untouched_away: "untouched b s s' \<Longrightarrow> away s b \<Longrightarrow> away s' b"
  by (simp add: untouched_def away_def)

lemma evolves_hive_apart: "evolves P s s' \<Longrightarrow> hive_apart s \<Longrightarrow> hive_apart s'"
  by (simp add: evolves_def hive_apart_def)

lemma removeBee_untouched: "x \<noteq> b \<Longrightarrow> untouched b s (removeBee s q x)"
  by (auto simp: untouched_def removeBee_def upd_bee_def upd_place_def)

lemma addBee_untouched: "x \<noteq> b \<Longrightarrow> untouched b s (addBee s q x)"
  by (auto simp: untouched_def addBee_def upd_bee_def upd_place_def)

lemma upd_bee_untouched [simp]: "untouched b s (upd_bee x f s)"
  by (simp add: untouched_def upd_bee_def)

lemma upd_ant_untouched [simp]: "untouched b s (upd_ant x f s)"
  by (simp add: untouched_def upd_ant_def)

lemma setStatus_untouched [simp]: "untouched b s (setStatus s x st)"
  by (simp add: setStatus_def)

lemma subArmor_untouched [simp]: "untouched b s (subArmor s i amount)"
  by (cases i) (simp_all add: subArmor_def)

lemma removeAnt_untouched [simp]: "untouched b s (snd (removeAnt s p))"
  by (simp add: untouched_def removeAnt_def upd_place_def)

lemma increaseFood_untouched [simp]: "untouched b s (increaseFood s n)"
  by (simp add: untouched_def increaseFood_def)

lemma addBoost_untouched [simp]: "untouched b s (addBoost s x)"
  by (simp add: untouched_def addBoost_def Let_def)

lemma random_untouched [simp]: "untouched b s (snd (random s))"
  by (simp add: untouched_def random_def)

lemma reduceArmor_bee_untouched:
  "reduceArmor s (BeeRef x) amount = Inr (d, s') \<Longrightarrow> x \<noteq> b \<Longrightarrow> untouched b s s'"
  by (auto simp: reduceArmor_bee_cases split: if_splits option.splits
      intro: untouched_trans[OF upd_bee_untouched removeBee_untouched])

lemma reduceArmor_ant_untouched:
  "reduceArmor s (AntRef a) amount = Inr (d, s') \<Longrightarrow> untouched b s s'"
  by (auto simp: reduceArmor_def Let_def removeInsect_def split: if_splits option.splits
      intro: untouched_trans[OF subArmor_untouched removeAnt_untouched])

lemma coughUp_untouched:
  assumes "coughUp s a = Inr s'" "away s b"
  shows "untouched b s s'"
proof -
  from assms(1) obtain eaten rest p where e: "p_bees (heap_places s (StomachPlace a)) = eaten # rest"
    and s': "s' = addBee (removeBee s (StomachPlace a) eaten) p eaten"
    by (auto simp: coughUp_def Let_def split: list.splits option.splits)
  have "StomachPlace a \<noteq> HivePlace" by simp
  with assms(2) have "b \<notin> set (p_bees (heap_places s (StomachPlace a)))"
    unfolding away_def by blast
  with e have "eaten \<noteq> b" by auto
  then show ?thesis unfolding s'
    by (blast intro: untouched_trans removeBee_untouched addBee_untouched)
qed

lemma eater_reduceArmor_untouched:
  assumes "eater_reduceArmor s a amount = Inr (d, s')" "away s b"
  shows "untouched b s s'"
proof -
  let ?s1 = "subArmor s (AntRef a) amount"
  have u1: "untouched b s ?s1" by simp
  then have aw: "away ?s1 b" using assms(2) by (rule untouched_away)
  have c: "untouched b ?s1 s2" if "coughUp ?s1 a = Inr s2" for s2
    using that aw by (rule coughUp_untouched)
  from assms(1) consider
      (a) s2 where "coughUp ?s1 a = Inr s2" "s' = upd_ant a (\<lambda>x. x\<lparr>a_turnsEating := 3\<rparr>) s2"
    | (b) "s' = ?s1"
    | (c) s2 where "coughUp ?s1 a = Inr s2" "reduceArmor s2 (AntRef a) amount = Inr (d, s')"
    | (d) "reduceArmor ?s1 (AntRef a) amount = Inr (d, s')"
    by (auto simp: eater_reduceArmor_def Let_def split: if_splits elim!: bindE)
  then show ?thesis
  proof cases
    case a
    with c[OF a(1)] u1 show ?thesis
      by (blast intro: untouched_trans upd_ant_untouched)
  next
    case b
    then show ?thesis by simp
  next
    case c': c
    from c[OF c'(1)] reduceArmor_ant_untouched[OF c'(2)] u1 show ?thesis
      by (blast intro: untouched_trans)
  next
    case d
    from reduceArmor_ant_untouched[OF d] u1 show ?thesis
      by (blast intro: untouched_trans)
  qed
qed

lemma ant_reduceArmor_untouched:
  "ant_reduceArmor s a amount = Inr (d, s') \<Longrightarrow> away s b \<Longrightarrow> untouched b s s'"
  by (auto simp: ant_reduceArmor_def split: if_splits
      intro: eater_reduceArmor_untouched reduceArmor_ant_untouched)

lemma exitBee_untouched: "exitBee s p x = Inr s' \<Longrightarrow> x \<noteq> b \<Longrightarrow> untouched b s s'"
  by (auto simp: exitBee_def Let_def split: option.splits
      intro: untouched_trans[OF removeBee_untouched addBee_untouched])

lemma bee_act_untouched:
  assumes "bee_act s x = Inr s'" "x \<noteq> b" "away s b"
  shows "untouched b s s'"
proof -
  from assms(1) obtain p where p: "b_place (heap_bees s x) = Some p"
    by (auto simp: bee_act_def split: option.splits)
  from assms(1) obtain s2 where s': "s' = setStatus s2 x None"
    and mid: "(case getAnt s p of
                Some ant \<Rightarrow>
                  if b_status (heap_bees s x) \<noteq> Some ''cold'' then
                    (case ant_reduceArmor s ant (b_damage (heap_bees s x)) of
                       Inl e \<Rightarrow> Inl e
                     | Inr (died, s1) \<Rightarrow> Inr s1)
                  else Inr s
              | None \<Rightarrow>
                  if b_armor (heap_bees s x) > 0 then
                    (if b_status (heap_bees s x) \<noteq> Some ''stuck'' then exitBee s p x
                     else Inr s)
                  else Inr s) = Inr s2"
    unfolding bee_act_def p option.case by (elim bindE) auto
  have "untouched b s s2"
  proof (cases "getAnt s p")
    case None
    with mid assms(2) show ?thesis
      by (auto split: if_splits intro: exitBee_untouched)
  next
    case (Some ant)
    show ?thesis
    proof (cases "b_status (heap_bees s x) \<noteq> Some ''cold''")
      case True
      with mid Some obtain d where "ant_reduceArmor s ant (b_damage (heap_bees s x)) = Inr (d, s2)"
        by (auto elim!: bindE)
      then show ?thesis using assms(3) by (rule ant_reduceArmor_untouched)
    next
      case False
      with mid Some show ?thesis by simp
    qed
  qed
  then show ?thesis unfolding s' by (rule untouched_trans) simp
qed

lemma chain_avoids_hive:
  "\<forall>p. p_entrance (heap_places s p) \<noteq> Some HivePlace \<Longrightarrow> po \<noteq> Some HivePlace \<Longrightarrow>
   HivePlace \<notin> set (chain s po n)"
proof (induction s po n rule: chain.induct)
  case (3 s p n)
  then show ?case by auto
qed simp_all

lemma getClosestBee_target:
  assumes "getClosestBee s p mx mn = Some x"
  shows "\<exists>q\<in>set (chain s (Some p) (nat (mx + 1))). x \<in> set (p_bees (heap_places s q))"
proof -
  let ?cs = "filter (\<lambda>q. p_bees (heap_places s q) \<noteq> [])
             (drop (nat mn) (chain s (Some p) (nat (mx + 1))))"
  from assms obtain q rest where f: "?cs = q # rest" and x: "x = hd (p_bees (heap_places s q))"
    by (auto simp: getClosestBee_spec closest_attacker_def split: list.splits)
  have "q \<in> set ?cs" by (simp add: f)
  then have "q \<in> set (chain s (Some p) (nat (mx + 1)))" "p_bees (heap_places s q) \<noteq> []"
    by (auto dest: in_set_dropD)
  with x show ?thesis by (auto intro!: bexI[of _ q])
qed

lemma target_not_parked:
  assumes "getClosestBee s p mx mn = Some x" "hive_apart s" "p \<noteq> HivePlace" "away s b"
  shows "x \<noteq> b"
proof -
  from getClosestBee_target[OF assms(1)] obtain q where
    q: "q \<in> set (chain s (Some p) (nat (mx + 1)))" "x \<in> set (p_bees (heap_places s q))" by blast
  from assms(2,3) have "HivePlace \<notin> set (chain s (Some p) (nat (mx + 1)))"
    by (intro chain_avoids_hive) (simp_all add: hive_apart_def)
  with q(1) have "q \<noteq> HivePlace" by auto
  with assms(4) q(2) show ?thesis by (auto simp: away_def)
qed

lemma spray_loop_untouched:
  "spray_loop fuel s a = Inr s' \<Longrightarrow> hive_apart s \<Longrightarrow> away s b \<Longrightarrow> untouched b s s'"
proof (induction fuel arbitrary: s)
  case 0
  then show ?case
    by (subst (asm) spray_loop.simps) (auto split: option.splits)
next
  case (Suc k)
  from Suc.prems(1) show ?case
  proof (subst (asm) spray_loop.simps, goal_cases)
    case 1
    show ?case
    proof (cases "a_place (heap_ants s a)")
      case None
      with 1 show ?thesis by simp
    next
      case (Some p)
      show ?thesis
      proof (cases "getClosestBee s p 0 0")
        case None
        with 1 Some show ?thesis by simp
      next
        case t: (Some target)
        with 1 Some obtain d s1 where
          r: "reduceArmor s (BeeRef target) 10 = Inr (d, s1)" and l: "spray_loop k s1 a = Inr s'"
          by (auto elim!: bindE)
        from Some Suc.prems(2) have "p \<noteq> HivePlace" by (auto simp: hive_apart_def)
        from target_not_parked[OF t Suc.prems(2) this Suc.prems(3)] have "target \<noteq> b" .
        from reduceArmor_bee_untouched[OF r this] have u: "untouched b s s1" .
        have "untouched b s1 s'"
        proof (rule Suc.IH[OF l])
          show "hive_apart s1"
            using reduceArmor_bee_evolves[OF r] Suc.prems(2) by (rule evolves_hive_apart)
          show "away s1 b" using u Suc.prems(3) by (rule untouched_away)
        qed
        with u show ?thesis by (rule untouched_trans)
      qed
    qed
  qed
qed

lemma thrower_act_untouched:
  assumes "thrower_act fuel s a = Inr s'" "hive_apart s" "away s b"
  shows "untouched b s s'"
proof (cases "a_boost (heap_ants s a) \<noteq> Some ''BugSpray''")
  case True
  with assms(1) obtain p where p: "a_place (heap_ants s a) = Some p"
    by (auto simp: thrower_act_def split: option.splits)
  with assms(2) have ph: "p \<noteq> HivePlace" by (auto simp: hive_apart_def)
  let ?t = "if a_boost (heap_ants s a) = Some ''FlyingLeaf''
            then getClosestBee s p 5 0 else getClosestBee s p 3 0"
  show ?thesis
  proof (cases ?t)
    case None
    with True p assms(1) have "s' = s" by (simp add: thrower_act_def)
    then show ?thesis by simp
  next
    case (Some target)
    then have "target \<noteq> b"
      using target_not_parked[OF _ assms(2) ph assms(3)] by (auto split: if_splits)
    from Some True p assms(1) obtain d s1 where r: "reduceArmor s (BeeRef target) 1 = Inr (d, s1)"
      and s': "s' = upd_ant a (\<lambda>a. a\<lparr>a_boost := None\<rparr>)
          (let s2 = (if a_boost (heap_ants s1 a) = Some ''StickyLeaf''
                     then setStatus s1 target (Some ''stuck'') else s1)
           in if a_boost (heap_ants s2 a) = Some ''IcyLeaf''
              then setStatus s2 target (Some ''cold'') else s2)"
      by (auto simp: thrower_act_def Let_def elim!: bindE)
    have e1: "untouched b s s1" using r \<open>target \<noteq> b\<close> by (rule reduceArmor_bee_untouched)
    have e2: "untouched b s1 (let s2 = (if a_boost (heap_ants s1 a) = Some ''StickyLeaf''
                     then setStatus s1 target (Some ''stuck'') else s1)
           in if a_boost (heap_ants s2 a) = Some ''IcyLeaf''
              then setStatus s2 target (Some ''cold'') else s2)"
      by (auto simp: Let_def intro: untouched_trans[OF setStatus_untouched setStatus_untouched])
    have e3: "untouched b s1 s'"
      unfolding s' by (rule untouched_trans[OF e2]) simp
    from e1 e3 show ?thesis by (rule untouched_trans)
  qed
next
  case False
  with assms(1) obtain s1 d where sp: "spray_loop fuel s a = Inr s1"
    and r: "reduceArmor s1 (AntRef a) 10 = Inr (d, s')"
    by (auto simp: thrower_act_def elim!: bindE)
  from spray_loop_untouched[OF sp assms(2,3)] reduceArmor_ant_untouched[OF r]
  show ?thesis by (rule untouched_trans)
qed

lemma eater_act_untouched:
  assumes "eater_act s a = Inr s'" "hive_apart s" "away s b"
  shows "untouched b s s'"
proof -
  have st: "b \<notin> set (p_bees (heap_places s (StomachPlace a)))"
    using assms(3) unfolding away_def by blast
  consider (eat) "a_turnsEating (heap_ants s a) = 0"
    | (out) "a_turnsEating (heap_ants s a) \<noteq> 0" "a_turnsEating (heap_ants s a) > 3"
    | (digest) "a_turnsEating (heap_ants s a) \<noteq> 0" "\<not> a_turnsEating (heap_ants s a) > 3"
    by blast
  then show ?thesis
  proof cases
    case eat
    with assms(1) obtain p where p: "a_place (heap_ants s a) = Some p"
      by (auto simp: eater_act_def split: option.splits)
    with assms(2) have ph: "p \<noteq> HivePlace" by (auto simp: hive_apart_def)
    show ?thesis
    proof (cases "getClosestBee s p 0 0")
      case None
      with eat p assms(1) show ?thesis by (simp add: eater_act_def)
    next
      case (Some t)
      from target_not_parked[OF Some assms(2) ph assms(3)] have tb: "t \<noteq> b" .
      from Some eat p assms(1) have "s' = upd_ant a (\<lambda>a. a\<lparr>a_turnsEating := 1\<rparr>)
          (addBee (removeBee s p t) (StomachPlace a) t)"
        by (simp add: eater_act_def)
      then show ?thesis using tb
        by (blast intro: untouched_trans removeBee_untouched addBee_untouched upd_ant_untouched)
    qed
  next
    case out
    with assms(1) have s': "s' = upd_ant a (\<lambda>a. a\<lparr>a_turnsEating := 0\<rparr>)
        (case getBees s (StomachPlace a) of [] \<Rightarrow> s | x # _ \<Rightarrow> removeBee s (StomachPlace a) x)"
      by (simp add: eater_act_def)
    have "untouched b s (case getBees s (StomachPlace a) of [] \<Rightarrow> s
        | x # _ \<Rightarrow> removeBee s (StomachPlace a) x)"
      using st by (auto simp: getBees_def split: list.splits intro: removeBee_untouched)
    then show ?thesis unfolding s' by (rule untouched_trans) simp
  next
    case digest
    with assms(1) have "s' = upd_ant a (\<lambda>a. a\<lparr>a_turnsEating := a_turnsEating a + 1\<rparr>) s"
      by (simp add: eater_act_def)
    then show ?thesis by simp
  qed
qed

lemma grower_act_untouched: "grower_act s a = Inr s' \<Longrightarrow> untouched b s s'"
  by (drule grower_act_cases)
    (auto intro: untouched_trans[OF random_untouched increaseFood_untouched]
      untouched_trans[OF random_untouched addBoost_untouched])

lemma ant_act_untouched:
  assumes "ant_act fuel s a = Inr s'" "hive_apart s" "away s b"
  shows "untouched b s s'"
  using assms
  by (cases "a_kind (heap_ants s a)")
    (auto simp: ant_act_def scuba_act_def guard_act_def
      intro: grower_act_untouched thrower_act_untouched eater_act_untouched)

lemma antsAct_body_untouched:
  assumes "antsAct_body fuel s a = Inr (acted, s')" "hive_apart s" "away s b"
  shows "untouched b s s'"
proof (cases "a_kind (heap_ants s a) = Guard")
  case False
  from antsAct_body_other[OF False assms(1)] assms(2,3) show ?thesis
    by (auto intro: ant_act_untouched)
next
  case True
  from antsAct_body_guard[OF True assms(1)] assms(2,3) show ?thesis
    by (auto intro: ant_act_untouched)
qed

lemma antsAct_loop_untouched:
  "antsAct_loop fuel ants s = Inr (acted, s') \<Longrightarrow> hive_apart s \<Longrightarrow> away s b \<Longrightarrow>
   untouched b s s'"
proof (induction ants arbitrary: s acted)
  case Nil
  then show ?case by simp
next
  case (Cons a ants)
  from Cons.prems(1) obtain acted1 s1 acted2 where
    b: "antsAct_body fuel s a = Inr (acted1, s1)" and l: "antsAct_loop fuel ants s1 = Inr (acted2, s')"
    by (auto elim!: bindE split: prod.splits)
  have u: "untouched b s s1" using b Cons.prems(2,3) by (rule antsAct_body_untouched)
  have "untouched b s1 s'"
  proof (rule Cons.IH[OF l])
    show "hive_apart s1" using antsAct_body_evolves[OF b] Cons.prems(2) by (rule evolves_hive_apart)
    show "away s1 b" using u Cons.prems(3) by (rule untouched_away)
  qed
  with u show ?case by (rule untouched_trans)
qed

lemma antsAct_untouched:
  "antsAct fuel s = Inr s' \<Longrightarrow> hive_apart s \<Longrightarrow> away s b \<Longrightarrow> untouched b s s'"
  by (auto simp: antsAct_def antsAct_calls_def elim!: bindE intro: antsAct_loop_untouched)

lemma beesAct_loop_untouched:
  "beesAct_loop bs s = Inr s' \<Longrightarrow> b \<notin> set bs \<Longrightarrow> away s b \<Longrightarrow> untouched b s s'"
proof (induction bs arbitrary: s)
  case Nil
  then show ?case by simp
next
  case (Cons x bs)
  from Cons.prems(1) obtain s1 where x: "bee_act s x = Inr s1" and l: "beesAct_loop bs s1 = Inr s'"
    by (auto elim!: bindE)
  from Cons.prems(2) have "x \<noteq> b" "b \<notin> set bs" by auto
  have u: "untouched b s s1" using x \<open>x \<noteq> b\<close> Cons.prems(3) by (rule bee_act_untouched)
  from Cons.IH[OF l \<open>b \<notin> set bs\<close> untouched_away[OF u Cons.prems(3)]] u
  show ?case by (blast intro: untouched_trans)
qed

lemma beesAct_untouched:
  assumes "beesAct s = Inr s'" "hive_apart s" "away s b"
  shows "untouched b s s'"
proof -
  have "b \<notin> set (getAllBees s)"
  proof
    assume "b \<in> set (getAllBees s)"
    then obtain q where q: "q \<in> set (concat (places s))" "b \<in> set (p_bees (heap_places s q))"
      by (auto simp: getAllBees_def getBees_def)
    from q(1) assms(2) have "q \<noteq> HivePlace" by (auto simp: hive_apart_def)
    with assms(3) q(2) show False by (simp add: away_def)
  qed
  with assms(1,3) show ?thesis by (simp add: beesAct_def beesAct_loop_untouched)
qed

lemma place_act_untouched [simp]: "untouched b s (place_act s p)"
  by (auto simp: place_act_def Let_def
      intro: untouched_trans[OF removeAnt_untouched removeAnt_untouched])

lemma fold_place_act_untouched: "untouched b s (fold (\<lambda>p s1. place_act s1 p) ps s)"
proof (induction ps arbitrary: s)
  case Nil
  then show ?case by simp
next
  case (Cons p ps)
  from place_act_untouched[of b s p] Cons.IH[of "place_act s p"]
  have "untouched b s (fold (\<lambda>p s1. place_act s1 p) ps (place_act s p))"
    by (rule untouched_trans)
  then show ?case by simp
qed

lemma placesAct_untouched: "untouched b s (placesAct s)"
  by (simp add: placesAct_def fold_place_act_untouched)

lemma invade_body_untouched:
  assumes "invade_body s x = Inr s'" "x \<noteq> b"
  shows "untouched b s s'"
proof -
  from invade_body_cases[OF assms(1)] obtain e where
    s': "s' = addBee (snd (random (removeBee s HivePlace x))) e x" by blast
  show ?thesis unfolding s' using assms(2)
    by (blast intro: untouched_trans removeBee_untouched random_untouched addBee_untouched)
qed

lemma invade_loop_untouched:
  "invade_loop w s = Inr s' \<Longrightarrow> b \<notin> set w \<Longrightarrow> untouched b s s'"
proof (induction w arbitrary: s)
  case Nil
  then show ?case by simp
next
  case (Cons x w)
  from Cons.prems(1) obtain s1 where x: "invade_body s x = Inr s1" and l: "invade_loop w s1 = Inr s'"
    by (auto elim!: bindE)
  from Cons.prems(2) have "x \<noteq> b" "b \<notin> set w" by auto
  from invade_body_untouched[OF x \<open>x \<noteq> b\<close>] Cons.IH[OF l \<open>b \<notin> set w\<close>]
  show ?case by (rule untouched_trans)
qed

lemma invade_untouched:
  "invade s t = Inr (w, s') \<Longrightarrow> (\<And>w'. waves s t = Some w' \<Longrightarrow> b \<notin> set w') \<Longrightarrow>
   untouched b s s'"
  by (auto simp: invade_def split: option.splits elim!: bindE intro: invade_loop_untouched)

lemma takeTurn_untouched:
  assumes t: "takeTurn fuel s = Inr s'" and h: "hive_apart s" and aw: "away s b"
    and w: "\<And>w. waves s (turn s) = Some w \<Longrightarrow> b \<notin> set w"
  shows "(\<forall>q. (b \<in> set (p_bees (heap_places s' q))) = (b \<in> set (p_bees (heap_places s q)))) \<and>
         waves s' = waves s \<and> next_bee s' = next_bee s \<and> turn s' = turn s + 1"
proof -
  from t obtain s1 s2 wv s3 where a: "antsAct fuel s = Inr s1" and bb: "beesAct s1 = Inr s2"
    and i: "invade (placesAct s2) (turn (placesAct s2)) = Inr (wv, s3)"
    and s': "s' = s3\<lparr>turn := turn s3 + 1\<rparr>"
    by (auto simp: takeTurn_def elim!: bindE)
  have u1: "untouched b s s1" using a h aw by (rule antsAct_untouched)
  have h1: "hive_apart s1" using antsAct_evolves[OF a] h by (rule evolves_hive_apart)
  have u2: "untouched b s1 s2" using bb h1 untouched_away[OF u1 aw] by (rule beesAct_untouched)
  have u3: "untouched b s2 (placesAct s2)" by (rule placesAct_untouched)
  have u123: "untouched b s (placesAct s2)"
    using u1 u2 u3 by (blast intro: untouched_trans)
  then have eq: "waves (placesAct s2) = waves s" "turn (placesAct s2) = turn s"
    by (simp_all add: untouched_def)
  have "untouched b (placesAct s2) s3"
    using i by (rule invade_untouched) (simp add: eq w)
  with u123 have "untouched b s s3" by (rule untouched_trans)
  then show ?thesis by (simp add: s' untouched_def)
qed

lemma new_Ant_untouched:
  assumes "new_EaterAnt s = (ant, s1) \<or> (\<exists>k ar c. new_Ant s k ar c = (ant, s1))" "away s b"
  shows "untouched b s s1"
proof -
  have "StomachPlace (next_ant s) \<noteq> HivePlace" by simp
  with assms(2) have "b \<notin> set (p_bees (heap_places s (StomachPlace (next_ant s))))"
    unfolding away_def by blast
  with assms(1) show ?thesis
    by (auto simp: new_EaterAnt_def new_Ant_def upd_place_def untouched_def empty_place_def
        split: if_splits)
qed

lemma deployAnt_untouched: "deployAnt s ant place = Inr (r, s') \<Longrightarrow> untouched b s s'"
  by (auto simp: deployAnt_def addAnt_def upd_ant_def upd_place_def Let_def untouched_def
      split: if_splits option.splits prod.splits)

lemma AntGame_deployAnt_untouched:
  assumes "away s b"
  shows "untouched b s (snd (AntGame_deployAnt s antType coords))"
proof (rule AntGame_deployAnt_cases[of s antType coords], goal_cases)
  case 1
  then show ?case by simp
next
  case (2 ant s1)
  then show ?case using new_Ant_untouched[OF 2(1) assms] by simp
next
  case (3 ant s1 place r)
  obtain msg s' where r: "r = (msg, s')" by (cases r)
  from 3(3) r have "untouched b s1 s'" by (auto dest: deployAnt_untouched)
  with new_Ant_untouched[OF 3(1) assms] have "untouched b s s'" by (rule untouched_trans)
  with 3(4) r show ?case by simp
qed

lemma AntGame_removeAnt_untouched: "untouched b s (snd (AntGame_removeAnt s coords))"
  by (auto simp: AntGame_removeAnt_def split: sum.splits option.splits)

lemma AntGame_boostAnt_untouched: "untouched b s (snd (AntGame_boostAnt s x coords))"
  by (auto simp: AntGame_boostAnt_def applyBoost_def setBoost_def
      split: sum.splits option.splits if_splits)

lemma array_get_mem: "array_get xs k = Element x \<Longrightarrow> x \<in> set xs"
  by (auto simp: array_get_def split: if_splits)

lemma place_at_cells: "place_at s coords = Inr (Some p) \<Longrightarrow> p \<in> set (concat (places s))"
  by (auto simp: place_at_def Let_def split: property.splits if_splits dest!: array_get_mem)

lemma new_Ant_hive_apart:
  assumes "new_EaterAnt s = (ant, s1) \<or> (\<exists>k ar c. new_Ant s k ar c = (ant, s1))" "hive_apart s"
  shows "hive_apart s1"
proof -
  from assms(1) have
    "\<And>a. a_place (heap_ants s1 a) = a_place (heap_ants s a) \<or> a_place (heap_ants s1 a) = None"
    "\<And>p. p_entrance (heap_places s1 p) = p_entrance (heap_places s p) \<or>
         p_entrance (heap_places s1 p) = None"
    "\<And>p. p_exit (heap_places s1 p) = p_exit (heap_places s p) \<or>
         p_exit (heap_places s1 p) = None"
    "places s1 = places s" "beeEntrances s1 = beeEntrances s"
    by (auto simp: new_EaterAnt_def new_Ant_def upd_place_def empty_place_def split: if_splits)
  with assms(2) show ?thesis
    unfolding hive_apart_def by (metis option.distinct(1))
qed

lemma deployAnt_hive_apart:
  assumes "deployAnt s ant place = Inr (r, s')" "hive_apart s"
    and "\<And>p. place = Some p \<Longrightarrow> p \<noteq> HivePlace"
  shows "hive_apart s'"
  using assms
  by (auto simp: deployAnt_def addAnt_def upd_ant_def upd_place_def Let_def hive_apart_def
      split: if_splits option.splits prod.splits)

lemma AntGame_deployAnt_hive_apart:
  assumes "hive_apart s"
  shows "hive_apart (snd (AntGame_deployAnt s antType coords))"
proof (rule AntGame_deployAnt_cases[of s antType coords], goal_cases)
  case 1
  then show ?case using assms by simp
next
  case (2 ant s1)
  then show ?case using new_Ant_hive_apart[OF 2(1) assms] by simp
next
  case (3 ant s1 place r)
  obtain msg s' where r: "r = (msg, s')" by (cases r)
  have h1: "hive_apart s1" using 3(1) assms by (rule new_Ant_hive_apart)
  have "hive_apart s'"
  proof (rule deployAnt_hive_apart[OF _ h1])
    show "deployAnt s1 ant place = Inr (msg, s')" using 3(3) r by simp
    fix p assume "place = Some p"
    with 3(2) have "place_at s1 coords = Inr (Some p)" by simp
    then have "p \<in> set (concat (places s1))" by (rule place_at_cells)
    with h1 show "p \<noteq> HivePlace" unfolding hive_apart_def by blast
  qed
  with 3(4) r show ?case by simp
qed

lemma exec_hive_apart:
  assumes "exec c s = Inr s'" "hive_apart s"
  shows "hive_apart s'"
proof (cases c)
  case (TakeTurn fuel)
  with assms(1) have "takeTurn fuel s = Inr s'" by (simp add: exec_def)
  from evolves_hive_apart[OF takeTurn_evolves[OF this] assms(2)] show ?thesis .
next
  case (DeployAnt x y)
  with assms show ?thesis by (auto simp: exec_def AntGame_deployAnt_hive_apart)
next
  case (RemoveAnt x)
  with assms(1) have "s' = snd (AntGame_removeAnt s x)" by (simp add: exec_def)
  with evolves_hive_apart[OF AntGame_removeAnt_evolves assms(2)] show ?thesis by simp
next
  case (BoostAnt x y)
  with assms(1) have "s' = snd (AntGame_boostAnt s x y)" by (simp add: exec_def)
  with evolves_hive_apart[OF AntGame_boostAnt_evolves assms(2)] show ?thesis by simp
next
  case (AddWave t n)
  with assms(1) have "s' = addWave s t n" by (simp add: exec_def)
  with evolves_hive_apart[OF addWave_evolves assms(2)] show ?thesis by simp
qed

lemma run_hive_apart: "run cmds s = Inr s' \<Longrightarrow> hive_apart s \<Longrightarrow> hive_apart s'"
proof (induction cmds arbitrary: s)
  case Nil
  then show ?case by simp
next
  case (Cons c cmds)
  from Cons.prems(1) obtain s1 where e: "exec c s = Inr s1" and r: "run cmds s1 = Inr s'"
    by (auto elim!: bindE)
  from Cons.IH[OF r exec_hive_apart[OF e Cons.prems(2)]] show ?case .
qed

lemma new_AntGame_hive_apart: "hive_apart (new_AntGame f nT len m ba bd rnd)"
proof -
  let ?g = "new_AntGame f nT len m ba bd rnd"
  have "HivePlace \<notin> set (concat (places ?g))"
    unfolding new_AntGame_fields(1) concat_board by simp
  moreover have "\<And>a. a_place (heap_ants ?g a) \<noteq> Some HivePlace"
    by (simp add: new_AntGame_fields(3) default_ant_def)
  moreover have "\<And>p. p_entrance (heap_places ?g p) \<noteq> Some HivePlace \<and>
      p_exit (heap_places ?g p) \<noteq> Some HivePlace"
    using new_AntGame_fields(2)[of f nT len m ba bd rnd] by (simp add: clean_heap_def)
  ultimately show ?thesis
    using new_AntGame_fields(10)[of f nT len m ba bd rnd] unfolding hive_apart_def by blast
qed

lemma addWave_loop_result:
  "fst (addWave_loop n s w) = w @ [next_bee s..<next_bee s + n] \<and>
   (\<forall>q. p_bees (heap_places (snd (addWave_loop n s w)) q) =
        p_bees (heap_places s q) @ (if q = HivePlace then [next_bee s..<next_bee s + n] else [])) \<and>
   next_bee (snd (addWave_loop n s w)) = next_bee s + n \<and>
   waves (snd (addWave_loop n s w)) = waves s \<and> turn (snd (addWave_loop n s w)) = turn s"
proof (induction n arbitrary: s w)
  case 0
  then show ?case by simp
next
  case (Suc n)
  let ?s1 = "snd (new_Bee s (beeArmor s) (beeDamage s) (Some HivePlace))"
  let ?s2 = "addBee ?s1 HivePlace (next_bee s)"
  have step: "addWave_loop (Suc n) s w = addWave_loop n ?s2 (w @ [next_bee s])"
    by (simp add: new_Bee_def)
  have f: "next_bee ?s2 = Suc (next_bee s)" "waves ?s2 = waves s" "turn ?s2 = turn s"
    "\<And>q. p_bees (heap_places ?s2 q) =
       p_bees (heap_places s q) @ (if q = HivePlace then [next_bee s] else [])"
    by (simp_all add: new_Bee_def addBee_def upd_bee_def upd_place_def)
  have u: "[next_bee s..<Suc (next_bee s + n)] =
      next_bee s # [Suc (next_bee s)..<Suc (next_bee s + n)]"
    by (simp add: upt_conv_Cons del: upt_Suc)
  from Suc.IH[of ?s2 "w @ [next_bee s]"] show ?case
    unfolding step by (simp add: f u del: upt_Suc)
qed

lemma addWave_result:
  "waves (addWave s t n) = (waves s)(t \<mapsto> [next_bee s..<next_bee s + n])"
  "p_bees (heap_places (addWave s t n) q) =
     p_bees (heap_places s q) @ (if q = HivePlace then [next_bee s..<next_bee s + n] else [])"
  "next_bee (addWave s t n) = next_bee s + n"
  "turn (addWave s t n) = turn s"
  using addWave_loop_result[of n s "[]"]
  by (simp_all add: addWave_def split_beta)

lemma exec_turn_mono: "exec c s = Inr s' \<Longrightarrow> turn s \<le> turn s'"
proof (cases c)
  case (TakeTurn fuel)
  assume "exec c s = Inr s'"
  with TakeTurn have "takeTurn fuel s = Inr s'" by (simp add: exec_def)
  from takeTurn_evolves[OF this] show ?thesis by (simp add: evolves_def)
next
  case (DeployAnt x y)
  assume e: "exec c s = Inr s'"
  have "turn (snd (AntGame_deployAnt s x y)) = turn s"
  proof (rule AntGame_deployAnt_cases[of s x y], goal_cases)
    case 1
    then show ?case by simp
  next
    case (2 ant s1)
    then show ?case by (auto simp: new_EaterAnt_def new_Ant_def upd_place_def)
  next
    case (3 ant s1 place r)
    obtain msg s2 where r: "r = (msg, s2)" by (cases r)
    from 3(3) r have "untouched 0 s1 s2" by (auto dest: deployAnt_untouched)
    moreover from 3(1) have "turn s1 = turn s"
      by (auto simp: new_EaterAnt_def new_Ant_def upd_place_def)
    ultimately show ?case using 3(4) r by (simp add: untouched_def)
  qed
  with e DeployAnt show ?thesis by (auto simp: exec_def)
next
  case (RemoveAnt x)
  assume "exec c s = Inr s'"
  with RemoveAnt AntGame_removeAnt_evolves[of s x] show ?thesis
    by (auto simp: exec_def evolves_def)
next
  case (BoostAnt x y)
  assume "exec c s = Inr s'"
  with BoostAnt AntGame_boostAnt_evolves[of s x y] show ?thesis
    by (auto simp: exec_def evolves_def)
next
  case (AddWave t n)
  assume "exec c s = Inr s'"
  with AddWave show ?thesis by (auto simp: exec_def addWave_result)
qed

lemma run_turn_mono: "run cmds s = Inr s' \<Longrightarrow> turn s \<le> turn s'"
proof (induction cmds arbitrary: s)
  case Nil
  then show ?case by simp
next
  case (Cons c cmds)
  from Cons.prems obtain s1 where e: "exec c s = Inr s1" and r: "run cmds s1 = Inr s'"
    by (auto elim!: bindE)
  from exec_turn_mono[OF e] Cons.IH[OF r] show ?case by simp
qed

lemma exec_bee_cases:
  assumes e: "exec c s = Inr s'" and h: "hive_apart s" and aw: "away s b"
    and w: "\<And>fuel w. c = TakeTurn fuel \<Longrightarrow> waves s (turn s) = Some w \<Longrightarrow> b \<notin> set w"
  shows "(\<exists>t n. c = AddWave t n \<and> s' = addWave s t n) \<or>
         ((\<forall>q. (b \<in> set (p_bees (heap_places s' q))) = (b \<in> set (p_bees (heap_places s q)))) \<and>
          waves s' = waves s \<and> next_bee s' = next_bee s)"
proof (cases c)
  case (TakeTurn fuel)
  with e have "takeTurn fuel s = Inr s'" by (simp add: exec_def)
  from takeTurn_untouched[OF this h aw w[OF TakeTurn]] show ?thesis by simp
next
  case (DeployAnt x y)
  with e AntGame_deployAnt_untouched[OF aw, of x y] show ?thesis
    by (auto simp: exec_def untouched_def)
next
  case (RemoveAnt x)
  with e AntGame_removeAnt_untouched[of b s x] show ?thesis
    by (auto simp: exec_def untouched_def)
next
  case (BoostAnt x y)
  with e AntGame_boostAnt_untouched[of b s x y] show ?thesis
    by (auto simp: exec_def untouched_def)
next
  case (AddWave t n)
  with e show ?thesis by (simp add: exec_def)
qed

lemma exec_unborn:
  assumes e: "exec c s = Inr s'" and h: "hive_apart s" and u: "unborn s b"
  shows "unborn s' b"
  unfolding unborn_def
proof
  assume nb: "next_bee s' \<le> b"
  have mono: "next_bee s \<le> next_bee s'"
  proof (cases c)
    case (TakeTurn fuel)
    with e have "takeTurn fuel s = Inr s'" by (simp add: exec_def)
    from takeTurn_evolves[OF this] show ?thesis by (simp add: evolves_def)
  next
    case (DeployAnt x y)
    have "away s 0 \<or> \<not> away s 0" by simp
    have "next_bee (snd (AntGame_deployAnt s x y)) = next_bee s"
    proof (rule AntGame_deployAnt_cases[of s x y], goal_cases)
      case 1
      then show ?case by simp
    next
      case (2 ant s1)
      then show ?case by (auto simp: new_EaterAnt_def new_Ant_def upd_place_def)
    next
      case (3 ant s1 place r)
      obtain msg s2 where r: "r = (msg, s2)" by (cases r)
      from 3(3) r have "untouched 0 s1 s2" by (auto dest: deployAnt_untouched)
      moreover from 3(1) have "next_bee s1 = next_bee s"
        by (auto simp: new_EaterAnt_def new_Ant_def upd_place_def)
      ultimately show ?case using 3(4) r by (simp add: untouched_def)
    qed
    with e DeployAnt show ?thesis by (auto simp: exec_def)
  next
    case (RemoveAnt x)
    with e AntGame_removeAnt_evolves[of s x] show ?thesis by (auto simp: exec_def evolves_def)
  next
    case (BoostAnt x y)
    with e AntGame_boostAnt_evolves[of s x y] show ?thesis by (auto simp: exec_def evolves_def)
  next
    case (AddWave t n)
    with e show ?thesis by (auto simp: exec_def addWave_result)
  qed
  with nb u have no: "\<And>q. b \<notin> set (p_bees (heap_places s q))"
    "\<And>t w. waves s t = Some w \<Longrightarrow> b \<notin> set w"
    by (auto simp: unborn_def)
  then have aw: "away s b" by (simp add: away_def)
  from exec_bee_cases[OF e h aw no(2)]
  show "(\<forall>q. b \<notin> set (p_bees (heap_places s' q))) \<and> (\<forall>t w. waves s' t = Some w \<longrightarrow> b \<notin> set w)"
  proof
    assume "\<exists>t n. c = AddWave t n \<and> s' = addWave s t n"
    then obtain t n where s': "s' = addWave s t n" by blast
    with nb have "b \<notin> set [next_bee s..<next_bee s + n]" by (simp add: addWave_result)
    with no show ?thesis by (auto simp: s' addWave_result)
  next
    assume "(\<forall>q. (b \<in> set (p_bees (heap_places s' q))) = (b \<in> set (p_bees (heap_places s q)))) \<and>
          waves s' = waves s \<and> next_bee s' = next_bee s"
    with no show ?thesis by auto
  qed
qed

lemma run_unborn: "run cmds s = Inr s' \<Longrightarrow> hive_apart s \<Longrightarrow> unborn s b \<Longrightarrow> unborn s' b"
proof (induction cmds arbitrary: s)
  case Nil
  then show ?case by simp
next
  case (Cons c cmds)
  from Cons.prems(1) obtain s1 where e: "exec c s = Inr s1" and r: "run cmds s1 = Inr s'"
    by (auto elim!: bindE)
  from Cons.IH[OF r exec_hive_apart[OF e Cons.prems(2)] exec_unborn[OF e Cons.prems(2,3)]]
  show ?case .
qed

lemma new_AntGame_unborn: "unborn (new_AntGame f nT len m ba bd rnd) b"
  using new_AntGame_fields(2)[of f nT len m ba bd rnd]
  by (simp add: unborn_def new_AntGame_fields(7) clean_heap_def)

lemma exec_parked:
  assumes e: "exec c s = Inr s'" and h: "hive_apart s" and p: "parked_in s b K"
    and k: "\<And>fuel. c = TakeTurn fuel \<Longrightarrow> turn s \<notin> K"
  shows "parked_in s' b K"
proof -
  from p have aw: "away s b" by (simp add: parked_in_def)
  have w: "b \<notin> set w" if "c = TakeTurn fuel" "waves s (turn s) = Some w" for fuel w
  proof
    assume "b \<in> set w"
    with that(2) p have "turn s \<in> K" by (auto simp: parked_in_def)
    with k[OF that(1)] show False by simp
  qed
  from exec_bee_cases[OF e h aw w] show ?thesis
  proof
    assume "\<exists>t n. c = AddWave t n \<and> s' = addWave s t n"
    then obtain t n where s': "s' = addWave s t n" by blast
    from p have "b \<notin> set [next_bee s..<next_bee s + n]" by (simp add: parked_in_def)
    with p show ?thesis
      by (auto simp: s' parked_in_def away_def addWave_result)
  next
    assume "(\<forall>q. (b \<in> set (p_bees (heap_places s' q))) = (b \<in> set (p_bees (heap_places s q)))) \<and>
          waves s' = waves s \<and> next_bee s' = next_bee s"
    with p show ?thesis by (simp add: parked_in_def away_def)
  qed
qed

lemma run_parked_forever:
  "run cmds s = Inr s' \<Longrightarrow> hive_apart s \<Longrightarrow> parked_in s b {} \<Longrightarrow> parked_in s' b {}"
proof (induction cmds arbitrary: s)
  case Nil
  then show ?case by simp
next
  case (Cons c cmds)
  from Cons.prems(1) obtain s1 where e: "exec c s = Inr s1" and r: "run cmds s1 = Inr s'"
    by (auto elim!: bindE)
  have "parked_in s1 b {}" using e Cons.prems(2,3) by (rule exec_parked) simp
  from Cons.IH[OF r exec_hive_apart[OF e Cons.prems(2)] this] show ?case .
qed

lemma takeTurn_turn:
  "takeTurn fuel s = Inr s' \<Longrightarrow> turn s < turn s'"
proof -
  assume t: "takeTurn fuel s = Inr s'"
  then obtain s1 s2 wv s3 where a: "antsAct fuel s = Inr s1" and bb: "beesAct s1 = Inr s2"
    and i: "invade (placesAct s2) (turn (placesAct s2)) = Inr (wv, s3)"
    and s': "s' = s3\<lparr>turn := turn s3 + 1\<rparr>"
    by (auto simp: takeTurn_def elim!: bindE)
  from antsAct_evolves[OF a] beesAct_evolves[OF bb] placesAct_evolves[of s2]
    invade_evolves[OF i, of UNIV]
  have "turn s \<le> turn s3" by (simp add: evolves_def)
  then show ?thesis by (simp add: s')
qed

lemma run_parked_until:
  "run mid s = Inr s1 \<Longrightarrow> hive_apart s \<Longrightarrow> parked_in s b {t} \<Longrightarrow>
   turn s1 \<le> t \<or> t < turn s \<Longrightarrow> parked_in s1 b {t}"
proof (induction mid arbitrary: s)
  case Nil
  then show ?case by simp
next
  case (Cons c cmds)
  from Cons.prems(1) obtain s2 where e: "exec c s = Inr s2" and r: "run cmds s2 = Inr s1"
    by (auto elim!: bindE)
  have k: "turn s \<notin> {t}" if "c = TakeTurn fuel" for fuel
  proof -
    from e that have "takeTurn fuel s = Inr s2" by (simp add: exec_def)
    from takeTurn_turn[OF this] run_turn_mono[OF r] Cons.prems(4) show ?thesis by auto
  qed
  have p2: "parked_in s2 b {t}" using e Cons.prems(2,3) k by (rule exec_parked)
  have "turn s1 \<le> t \<or> t < turn s2"
    using Cons.prems(4) exec_turn_mono[OF e] by auto
  from Cons.IH[OF r exec_hive_apart[OF e Cons.prems(2)] p2 this] show ?case .
qed

lemma first_call_parks:
  assumes "unborn s b" "next_bee s \<le> b" "b < next_bee s + n"
  shows "parked_in (addWave s t n) b {t}"
  using assms
  by (auto simp: parked_in_def unborn_def away_def addWave_result)

lemma second_call_orphans:
  assumes "parked_in s b {t}"
  shows "parked_in (addWave s t n) b {}"
proof -
  from assms have "b \<notin> set [next_bee s..<next_bee s + n]" by (simp add: parked_in_def)
  with assms show ?thesis
    by (auto simp: parked_in_def away_def addWave_result)
qed

lemma addWave_unborn: "unborn s b \<Longrightarrow> unborn (addWave s t n) b"
  by (auto simp: unborn_def addWave_result split: if_splits)

lemma parked_hive: "parked_in s b K \<Longrightarrow> b \<in> set (p_bees (heap_places s HivePlace))"
  by (simp add: parked_in_def)

lemma hive_not_won: "b \<in> set (p_bees (heap_places s HivePlace)) \<Longrightarrow> gameIsWon s \<noteq> Some True"
  by (auto simp: gameIsWon_def queenHasBees_def getBees_def)

lemma weak_game_eq:
  "weak_game =
    \<lparr>heap_places = (\<lambda>p. empty_place)
        (TunnelPlace 0 0 := empty_place\<lparr>p_exit := Some QueenPlace\<rparr>,
         QueenPlace := empty_place\<lparr>p_entrance := Some (TunnelPlace 0 0)\<rparr>),
     heap_ants = (\<lambda>a. default_ant), heap_bees = (\<lambda>b. default_bee),
     next_ant = 0, next_bee = 0, food = 10, places = [[TunnelPlace 0 0]],
     beeEntrances = [TunnelPlace 0 0],
     boosts = [''FlyingLeaf'' \<mapsto> Count 1, ''StickyLeaf'' \<mapsto> Count 1,
               ''IcyLeaf'' \<mapsto> Count 1, ''BugSpray'' \<mapsto> Count 0],
     waves = Map.empty, beeArmor = 1, beeDamage = 1, turn = 0,
     rolls = (\<lambda>n. 0), roll_ix = 0\<rparr>"
  by (simp add: weak_game_def new_AntGame_def colony_tunnel_def colony_step_def Let_def
      empty_place_def)

lemmas act_defs = antsAct_loop.simps antsAct_body_def ant_act_def thrower_act_def
  getClosestBee_spec closest_attacker_def chain_numeral reduceArmor_def removeInsect_def
  subArmor_def getArmor_def getPlace_def beesAct_loop.simps invade_loop.simps

lemma cleared_run:
  "run [DeployAnt ''Thrower'' ''0,0'', AddWave 0 1, TakeTurn 0, AddWave 0 0, TakeTurn 0] weak_game
     = Inr cleared_game"
  by (simp add: cleared_game_def weak_game_eq turn_defs command_defs act_defs)

lemma cleared_fields:
  "p_bees (heap_places cleared_game HivePlace) = []"
  "p_bees (heap_places cleared_game (TunnelPlace 0 0)) = []"
  "p_bees (heap_places cleared_game QueenPlace) = []"
  "places cleared_game = [[TunnelPlace 0 0]]"
  "waves cleared_game 0 = Some []"
  "turn cleared_game = 2"
  by (simp_all add: cleared_game_def weak_game_eq turn_defs command_defs act_defs)

lemma cleared_won: "gameIsWon cleared_game = Some True"
  by (simp add: gameIsWon_def queenHasBees_def getAllBees_def getBees_def cleared_fields)

text \<open>
  C10, as amended.  Let a game be reached from its construction, let \<^verbatim>\<open>addWave\<close> be called
  for turn \<open>t\<close> with \<open>n1\<close> bees and, after any operations, for \<open>t\<close> again with \<open>n2\<close> bees, and
  let \<open>s'\<close> be any state reached afterwards.  Each call records exactly its own bees for
  \<open>t\<close>.  When the first wave has not been released at the second call (the turn counter is
  at most \<open>t\<close> then, or was already beyond \<open>t\<close> at the first call), every bee of the first
  call is not in the second wave, is in the hive in \<open>s'\<close>, and no wave of \<open>s'\<close> contains it.
  When the turn counter is beyond \<open>t\<close> at the second call, every bee of the second call is
  in the hive in \<open>s'\<close>, and only the wave of the past turn \<open>t\<close> can contain it.  So
  \<^verbatim>\<open>gameIsWon\<close> does not return \<^verbatim>\<open>true\<close> in \<open>s'\<close> when the first wave is not empty and was not
  released, or the second wave is not empty and its turn is past.
\<close>

theorem overwritten_wave_stays:
  assumes "run cmds0 (new_AntGame startingFood numTunnels tunnelLength moatFrequency armor damage rnd)
           = Inr s0"
    and "run mid (addWave s0 t n1) = Inr s1"
    and "run cmds (addWave s1 t n2) = Inr s'"
  shows "waves (addWave s0 t n1) t = Some [next_bee s0..<next_bee s0 + n1] \<and>
         waves (addWave s1 t n2) t = Some [next_bee s1..<next_bee s1 + n2] \<and>
         (turn s1 \<le> t \<or> t < turn s0 \<longrightarrow>
            (\<forall>b. next_bee s0 \<le> b \<and> b < next_bee s0 + n1 \<longrightarrow>
               b \<notin> set [next_bee s1..<next_bee s1 + n2] \<and>
               b \<in> set (p_bees (heap_places s' HivePlace)) \<and>
               (\<forall>t' w. waves s' t' = Some w \<longrightarrow> b \<notin> set w))) \<and>
         (t < turn s1 \<longrightarrow>
            (\<forall>b. next_bee s1 \<le> b \<and> b < next_bee s1 + n2 \<longrightarrow>
               b \<in> set (p_bees (heap_places s' HivePlace)) \<and>
               (\<forall>t' w. waves s' t' = Some w \<and> b \<in> set w \<longrightarrow> t' = t \<and> t' < turn s'))) \<and>
         ((1 \<le> n1 \<and> (turn s1 \<le> t \<or> t < turn s0)) \<or> (1 \<le> n2 \<and> t < turn s1) \<longrightarrow>
            gameIsWon s' \<noteq> Some True)"
proof -
  have h0: "hive_apart s0" using assms(1) new_AntGame_hive_apart by (rule run_hive_apart)
  have h1: "hive_apart (addWave s0 t n1)"
    using addWave_evolves h0 by (rule evolves_hive_apart)
  have h2: "hive_apart s1" using assms(2) h1 by (rule run_hive_apart)
  have h3: "hive_apart (addWave s1 t n2)"
    using addWave_evolves h2 by (rule evolves_hive_apart)
  have u0: "unborn s0 b" for b
    using assms(1) new_AntGame_hive_apart new_AntGame_unborn by (rule run_unborn)
  have u1: "unborn s1 b" for b
    using assms(2) h1 addWave_unborn[OF u0] by (rule run_unborn)
  have t3: "turn s1 \<le> turn s'"
    using run_turn_mono[OF assms(3)] by (simp add: addWave_result)
  have first: "b \<notin> set [next_bee s1..<next_bee s1 + n2] \<and> parked_in s' b {}"
    if a: "turn s1 \<le> t \<or> t < turn s0" and b: "next_bee s0 \<le> b" "b < next_bee s0 + n1" for b
  proof -
    have p1: "parked_in (addWave s0 t n1) b {t}" using u0 b by (rule first_call_parks)
    have "turn s1 \<le> t \<or> t < turn (addWave s0 t n1)" using a by (simp add: addWave_result)
    with assms(2) h1 p1 have p2: "parked_in s1 b {t}" by (rule run_parked_until)
    have p3: "parked_in (addWave s1 t n2) b {}" using p2 by (rule second_call_orphans)
    from assms(3) h3 p3 have "parked_in s' b {}" by (rule run_parked_forever)
    moreover from p2 have "b \<notin> set [next_bee s1..<next_bee s1 + n2]"
      by (simp add: parked_in_def)
    ultimately show ?thesis by simp
  qed
  have second: "parked_in s' b {t}"
    if a: "t < turn s1" and b: "next_bee s1 \<le> b" "b < next_bee s1 + n2" for b
  proof -
    have p1: "parked_in (addWave s1 t n2) b {t}" using u1 b by (rule first_call_parks)
    have "turn s' \<le> t \<or> t < turn (addWave s1 t n2)" using a by (simp add: addWave_result)
    with assms(3) h3 p1 show ?thesis by (rule run_parked_until)
  qed
  have c3: "turn s1 \<le> t \<or> t < turn s0 \<longrightarrow>
      (\<forall>b. next_bee s0 \<le> b \<and> b < next_bee s0 + n1 \<longrightarrow>
         b \<notin> set [next_bee s1..<next_bee s1 + n2] \<and>
         b \<in> set (p_bees (heap_places s' HivePlace)) \<and>
         (\<forall>t' w. waves s' t' = Some w \<longrightarrow> b \<notin> set w))"
    using first by (auto simp: parked_in_def)
  have c4: "t < turn s1 \<longrightarrow>
      (\<forall>b. next_bee s1 \<le> b \<and> b < next_bee s1 + n2 \<longrightarrow>
         b \<in> set (p_bees (heap_places s' HivePlace)) \<and>
         (\<forall>t' w. waves s' t' = Some w \<and> b \<in> set w \<longrightarrow> t' = t \<and> t' < turn s'))"
  proof (intro impI allI conjI)
    fix b assume a: "t < turn s1" and b: "next_bee s1 \<le> b \<and> b < next_bee s1 + n2"
    from second[OF a] b have p: "parked_in s' b {t}" by simp
    from p show "b \<in> set (p_bees (heap_places s' HivePlace))" by (rule parked_hive)
    fix t' w assume w: "waves s' t' = Some w \<and> b \<in> set w"
    with p show "t' = t" by (auto simp: parked_in_def)
    with a t3 show "t' < turn s'" by simp
  qed
  have c5: "(1 \<le> n1 \<and> (turn s1 \<le> t \<or> t < turn s0)) \<or> (1 \<le> n2 \<and> t < turn s1) \<longrightarrow>
      gameIsWon s' \<noteq> Some True"
  proof
    assume "(1 \<le> n1 \<and> (turn s1 \<le> t \<or> t < turn s0)) \<or> (1 \<le> n2 \<and> t < turn s1)"
    then show "gameIsWon s' \<noteq> Some True"
    proof
      assume a: "1 \<le> n1 \<and> (turn s1 \<le> t \<or> t < turn s0)"
      then have "parked_in s' (next_bee s0) {}" using first[of "next_bee s0"] by simp
      then show ?thesis by (intro hive_not_won parked_hive)
    next
      assume a: "1 \<le> n2 \<and> t < turn s1"
      then have "parked_in s' (next_bee s1) {t}" using second[of "next_bee s1"] by simp
      then show ?thesis by (intro hive_not_won parked_hive)
    qed
  qed
  from c3 c4 c5 show ?thesis by (simp add: addWave_result)
qed

lemma rescheduled_run:
  "run [AddWave 0 1, TakeTurn 0, AddWave 0 1] tiny_game = Inr rescheduled_game"
  by (simp add: rescheduled_game_def tiny_game_eq turn_defs)

lemma rescheduled_fields:
  "p_bees (heap_places rescheduled_game HivePlace) = [Suc 0]"
  "p_bees (heap_places rescheduled_game (TunnelPlace 0 0)) = [0]"
  "waves rescheduled_game 0 = Some [Suc 0]"
  "turn rescheduled_game = 1"
  by (simp_all add: rescheduled_game_def tiny_game_eq turn_defs)

lemma empty_waves_won: "gameIsWon (addWave (addWave tiny_game 0 0) 0 0) = Some True"
  by (simp add: gameIsWon_def queenHasBees_def getAllBees_def getBees_def addWave_result
      tiny_game_eq empty_place_def)

text \<open>
  C10, refuted as stated.  One bee is scheduled for turn 0, the turn is taken and releases
  it to the entrance, and a bee is scheduled for turn 0 a second time: the bee of the first
  call is then on the board, not in the hive.  When bees have armor 1, a Thrower stands in
  the section and the second wave is empty, the next turn removes that bee and the game is
  won.  Two empty waves for turn 0 leave a new game won as well.
\<close>

theorem first_wave_already_released:
  "run [AddWave 0 1, TakeTurn 0, AddWave 0 1] tiny_game = Inr rescheduled_game \<and>
   waves (addWave tiny_game 0 1) 0 = Some [0] \<and>
   waves rescheduled_game 0 = Some [1] \<and>
   p_bees (heap_places rescheduled_game HivePlace) = [1] \<and>
   p_bees (heap_places rescheduled_game (TunnelPlace 0 0)) = [0] \<and>
   run [DeployAnt ''Thrower'' ''0,0'', AddWave 0 1, TakeTurn 0, AddWave 0 0, TakeTurn 0] weak_game
     = Inr cleared_game \<and>
   waves cleared_game 0 = Some [] \<and>
   p_bees (heap_places cleared_game HivePlace) = [] \<and>
   gameIsWon cleared_game = Some True \<and>
   gameIsWon (addWave (addWave tiny_game 0 0) 0 0) = Some True"
  using rescheduled_run cleared_run cleared_won empty_waves_won
  by (simp add: rescheduled_fields cleared_fields addWave_result tiny_game_eq)

lemma doubled_run:
  "run [TakeTurn 0] (addWave (addWave tiny_game 0 1) 0 1) = Inr doubled_game"
  by (simp add: doubled_game_def tiny_game_eq turn_defs)

lemma doubled_fields:
  "p_bees (heap_places doubled_game HivePlace) = [0]"
  "p_bees (heap_places doubled_game (TunnelPlace 0 0)) = [Suc 0]"
  "waves doubled_game 0 = Some [Suc 0]"
  by (simp_all add: doubled_game_def tiny_game_eq turn_defs)

text \<open>
  On the one-section colony: a bee scheduled for turn 0 twice before the turn is taken
  (the first bee stays in the hive), and a bee scheduled for turn 0 again after the turn
  was taken (the second bee stays in the hive).
\<close>

theorem overwritten_wave_stays_witness:
  "run [TakeTurn 0] (addWave (addWave tiny_game 0 1) 0 1) = Inr doubled_game \<and>
   0 \<in> set (p_bees (heap_places doubled_game HivePlace)) \<and>
   waves doubled_game 0 = Some [1] \<and>
   gameIsWon doubled_game \<noteq> Some True \<and>
   run [AddWave 0 1, TakeTurn 0, AddWave 0 1] tiny_game = Inr rescheduled_game \<and>
   1 \<in> set (p_bees (heap_places rescheduled_game HivePlace)) \<and>
   gameIsWon rescheduled_game \<noteq> Some True"
proof -
  let ?g = "new_AntGame 10 1 1 0 2 1 (\<lambda>n. 0)"
  have r0: "run [] ?g = Inr ?g" by simp
  have mid: "run [] (addWave ?g 0 1) = Inr (addWave ?g 0 1)" by simp
  have r: "run [TakeTurn 0] (addWave (addWave ?g 0 1) 0 1) = Inr doubled_game"
    using doubled_run by (simp add: tiny_game_def)
  from overwritten_wave_stays[OF r0 mid r]
  have d: "0 \<in> set (p_bees (heap_places doubled_game HivePlace)) \<and>
      gameIsWon doubled_game \<noteq> Some True"
    by (simp add: new_AntGame_fields addWave_result)
  from rescheduled_run obtain s1 where
    m: "run [TakeTurn 0] (addWave ?g 0 1) = Inr s1" and
    e: "rescheduled_game = addWave s1 0 1"
    by (auto simp: tiny_game_def exec_def elim!: bindE)
  from m have "takeTurn 0 (addWave ?g 0 1) = Inr s1"
    by (auto simp: exec_def elim!: bindE)
  from takeTurn_turn[OF this] have t: "0 < turn s1"
    by (simp add: addWave_result new_AntGame_fields)
  have n: "next_bee s1 = 1"
    using rescheduled_fields(3) by (simp add: e addWave_result)
  have c: "run [] (addWave s1 0 1) = Inr rescheduled_game" by (simp add: e)
  from overwritten_wave_stays[OF r0 m c] t
  have s: "1 \<in> set (p_bees (heap_places rescheduled_game HivePlace)) \<and>
      gameIsWon rescheduled_game \<noteq> Some True"
    by (simp add: n)
  from d s doubled_run rescheduled_run show ?thesis by (simp add: doubled_fields)
qed


end
